theory Spec2Isabelle
  imports Main "HOL-Library.Word" "HOL-Library.Multiset"
begin

section \<open>Data model of the SSSP application (FifoSSSP.cpp)\<close>

text \<open>
  Distances are C++ \<open>unsigned int\<close> values (\<open>Dist\<close>), so every addition below is the
  32-bit addition of the machine and wraps modulo \<open>2 ^ 32\<close>.  Graph nodes are the
  indices \<open>0 ..< graph.size()\<close>; an edge iterator is modelled by the pair it
  dereferences to (\<open>getEdgeDst\<close>, \<open>getEdgeData\<close>), and the out-edges of node \<open>n\<close>
  are the list \<open>g ! n\<close>, in iteration order.
\<close>

type_synonym Dist = "32 word"
type_synonym GNode = nat
type_synonym Edge = "GNode \<times> Dist"
type_synonym Graph = "Edge list list"

text \<open>\<open>UpdateRequestCommon<GNode>\<close>: the pair of its fields \<open>n\<close> and \<open>w\<close>.\<close>

type_synonym UpdateRequest = "GNode \<times> Dist"

text \<open>
  Modelled from the spec: \<open>DIST_INFINITY\<close> is declared in SSSP.h, which is not among
  the sources; the specification fixes the sentinel as \<open>INF = 2^32 - 1\<close>.
\<close>

definition DIST_INFINITY :: Dist where
  "DIST_INFINITY = 0xFFFFFFFF"

definition trackWork :: bool where
  "trackWork = True"

record SNode =
  dist :: Dist

record SetNode = SNode +
  inSet :: bool

text \<open>
  The mutable state the operators work on: the node data of the graph and the two
  global statistics \<open>BadWork\<close> and \<open>WLEmptyWork\<close>.
\<close>

record 'nd State =
  nodes :: "GNode \<Rightarrow> 'nd"
  BadWork :: nat
  WLEmptyWork :: nat

definition setDist ::
  "('a SNode_scheme) State \<Rightarrow> GNode \<Rightarrow> Dist \<Rightarrow> ('a SNode_scheme) State" where
  "setDist st n d = st\<lparr>nodes := (nodes st)(n := (nodes st n)\<lparr>dist := d\<rparr>)\<rparr>"

text \<open>
  One compare-and-swap on a distance cell, as one atomic step: the result is the
  success flag and the new content of the cell.  In the sequential reading used
  here a spurious failure of \<open>compare_exchange_weak\<close> only repeats the enclosing loop
  on an unchanged state, so it is left out.
\<close>

definition compare_exchange :: "Dist \<Rightarrow> Dist \<Rightarrow> Dist \<Rightarrow> bool \<times> Dist" where
  "compare_exchange cell expected desired =
     (if cell = expected then (True, desired) else (False, cell))"

section \<open>AsyncAlgo<UseCas>: the request-carrying operator\<close>

text \<open>The \<open>while (newDist < (oldDist = ddata))\<close> loop of \<open>AsyncAlgo::relaxEdge\<close>.\<close>

function AsyncAlgo_relaxEdge_loop ::
  "bool \<Rightarrow> GNode \<Rightarrow> Dist \<Rightarrow> ('a SNode_scheme) State \<times> UpdateRequest list
     \<Rightarrow> ('a SNode_scheme) State \<times> UpdateRequest list" where
  "AsyncAlgo_relaxEdge_loop UseCas dst newDist (st, pusher) =
     (let oldDist = dist (nodes st dst) in
      if newDist < oldDist then
        (let (ok, cell) = (if UseCas
                           then compare_exchange (dist (nodes st dst)) oldDist newDist
                           else (True, dist (nodes st dst)));
             st1 = setDist st dst cell
         in if ok then
              (let st2 = (if \<not> UseCas then setDist st1 dst newDist else st1);
                   st3 = (if trackWork \<and> oldDist \<noteq> DIST_INFINITY
                          then st2\<lparr>BadWork := BadWork st2 + 1\<rparr> else st2)
               in (st3, pusher @ [(dst, newDist)]))
            else AsyncAlgo_relaxEdge_loop UseCas dst newDist (st1, pusher))
      else (st, pusher))"
  by pat_completeness auto
termination
  by (relation "{}") (auto simp: compare_exchange_def split: if_splits)

definition AsyncAlgo_relaxEdge ::
  "bool \<Rightarrow> ('a SNode_scheme) State \<Rightarrow> Dist \<Rightarrow> Edge \<Rightarrow> UpdateRequest list
     \<Rightarrow> ('a SNode_scheme) State \<times> UpdateRequest list" where
  "AsyncAlgo_relaxEdge UseCas st sdist ii pusher =
     (let dst = fst ii; d = snd ii; newDist = sdist + d
      in AsyncAlgo_relaxEdge_loop UseCas dst newDist (st, pusher))"

text \<open>
  The edge loop of \<open>AsyncAlgo::relaxNode\<close>; \<open>sdist\<close> is a reference to the distance
  cell of \<open>req.n\<close>, so it is read again for every edge.
\<close>

fun AsyncAlgo_relaxNode_loop ::
  "bool \<Rightarrow> UpdateRequest \<Rightarrow> Edge list \<Rightarrow> ('a SNode_scheme) State \<times> UpdateRequest list
     \<Rightarrow> ('a SNode_scheme) State \<times> UpdateRequest list" where
  "AsyncAlgo_relaxNode_loop UseCas req [] (st, pusher) = (st, pusher)"
| "AsyncAlgo_relaxNode_loop UseCas req (ii # rest) (st, pusher) =
     (if snd req \<noteq> dist (nodes st (fst req)) then
        ((if trackWork then st\<lparr>WLEmptyWork := WLEmptyWork st + 1\<rparr> else st), pusher)
      else AsyncAlgo_relaxNode_loop UseCas req rest
             (AsyncAlgo_relaxEdge UseCas st (dist (nodes st (fst req))) ii pusher))"

definition AsyncAlgo_relaxNode ::
  "bool \<Rightarrow> Graph \<Rightarrow> UpdateRequest \<Rightarrow> ('a SNode_scheme) State \<times> UpdateRequest list
     \<Rightarrow> ('a SNode_scheme) State \<times> UpdateRequest list" where
  "AsyncAlgo_relaxNode UseCas g req sp =
     (let st = fst sp; pusher = snd sp in
      if snd req \<noteq> dist (nodes st (fst req)) then
        ((if trackWork then st\<lparr>WLEmptyWork := WLEmptyWork st + 1\<rparr> else st), pusher)
      else AsyncAlgo_relaxNode_loop UseCas req (g ! fst req) (st, pusher))"

text \<open>
  \<open>Initialize\<close> applied to every node by \<open>do_all_local\<close>.  Each application
  writes the cell of its own node only, so the order in which they run does not
  matter, and the nodes are taken in the order of their numbers.
\<close>

definition Initialize :: "('a SNode_scheme) State \<Rightarrow> GNode \<Rightarrow> ('a SNode_scheme) State" where
  "Initialize st n = setDist st n DIST_INFINITY"

definition do_all_Initialize :: "Graph \<Rightarrow> ('a SNode_scheme) State \<Rightarrow> ('a SNode_scheme) State" where
  "do_all_Initialize g st = foldl Initialize st [0..<length g]"

text \<open>
  \<open>AsyncAlgo::InitialProcess\<close> on one out-edge of the source, and the part of
  \<open>AsyncAlgo::operator()\<close> that runs before the work-list loop: the source distance is
  set to 0 and \<open>do_all\<close> relaxes every out-edge of the source into the bag
  \<open>initial\<close>.  \<open>do_all\<close> is a parallel loop: \<open>AsyncAlgo_initial\<close> is the one of
  its schedules in which a single worker takes the edges one after the other, in
  iteration order.  The other schedules are runs of \<open>AsyncAlgo_op_step\<close> below.
\<close>

definition AsyncAlgo_InitialProcess ::
  "bool \<Rightarrow> GNode \<Rightarrow> ('a SNode_scheme) State \<times> UpdateRequest list \<Rightarrow> Edge
     \<Rightarrow> ('a SNode_scheme) State \<times> UpdateRequest list" where
  "AsyncAlgo_InitialProcess UseCas source sb ii =
     AsyncAlgo_relaxEdge UseCas (fst sb) (dist (nodes (fst sb) source)) ii (snd sb)"

definition AsyncAlgo_initial ::
  "bool \<Rightarrow> Graph \<Rightarrow> GNode \<Rightarrow> ('a SNode_scheme) State
     \<Rightarrow> ('a SNode_scheme) State \<times> UpdateRequest list" where
  "AsyncAlgo_initial UseCas g source st =
     foldl (AsyncAlgo_InitialProcess UseCas source) (setDist st source 0, []) (g ! source)"

section \<open>AsyncSetAlgo<UseCas>: the operator of the blind and work-set variants\<close>

function AsyncSetAlgo_relaxEdge_loop ::
  "bool \<Rightarrow> GNode \<Rightarrow> Dist \<Rightarrow> ('a SNode_scheme) State \<times> GNode list
     \<Rightarrow> ('a SNode_scheme) State \<times> GNode list" where
  "AsyncSetAlgo_relaxEdge_loop UseCas dst newDist (st, pusher) =
     (let oldDist = dist (nodes st dst) in
      if newDist < oldDist then
        (let (ok, cell) = (if UseCas
                           then compare_exchange (dist (nodes st dst)) oldDist newDist
                           else (True, dist (nodes st dst)));
             st1 = setDist st dst cell
         in if ok then
              (let st2 = (if \<not> UseCas then setDist st1 dst newDist else st1);
                   st3 = (if trackWork \<and> oldDist \<noteq> DIST_INFINITY
                          then st2\<lparr>BadWork := BadWork st2 + 1\<rparr> else st2)
               in (st3, pusher @ [dst]))
            else AsyncSetAlgo_relaxEdge_loop UseCas dst newDist (st1, pusher))
      else (st, pusher))"
  by pat_completeness auto
termination
  by (relation "{}") (auto simp: compare_exchange_def split: if_splits)

text \<open>\<open>sdata\<close> is a reference to the node data of the source node \<open>src\<close>.\<close>

definition AsyncSetAlgo_relaxEdge ::
  "bool \<Rightarrow> ('a SNode_scheme) State \<Rightarrow> GNode \<Rightarrow> Edge \<Rightarrow> GNode list
     \<Rightarrow> ('a SNode_scheme) State \<times> GNode list" where
  "AsyncSetAlgo_relaxEdge UseCas st src ii pusher =
     (let dst = fst ii; d = snd ii; newDist = dist (nodes st src) + d
      in AsyncSetAlgo_relaxEdge_loop UseCas dst newDist (st, pusher))"

definition AsyncSetAlgo_relaxNode ::
  "bool \<Rightarrow> Graph \<Rightarrow> GNode \<Rightarrow> ('a SNode_scheme) State \<times> GNode list
     \<Rightarrow> ('a SNode_scheme) State \<times> GNode list" where
  "AsyncSetAlgo_relaxNode UseCas g req sp =
     foldl (\<lambda>sp ii. AsyncSetAlgo_relaxEdge UseCas (fst sp) req ii (snd sp)) sp (g ! req)"

text \<open>
  The \<open>do_all\<close> of \<open>AsyncSetAlgo::operator()\<close> run by a single worker, as
  \<open>AsyncAlgo_initial\<close>.
\<close>

definition AsyncSetAlgo_initial ::
  "bool \<Rightarrow> Graph \<Rightarrow> GNode \<Rightarrow> ('a SNode_scheme) State
     \<Rightarrow> ('a SNode_scheme) State \<times> GNode list" where
  "AsyncSetAlgo_initial UseCas g source st =
     foldl (\<lambda>sb ii. AsyncSetAlgo_relaxEdge UseCas (fst sb) source ii (snd sb))
       (setDist st source 0, []) (g ! source)"

section \<open>AsyncAlgoPP: the push-pull operator\<close>

text \<open>
  The \<open>do ... while (newDist < (oldDist = ddata.dist))\<close> loop of
  \<open>AsyncAlgoPP::relaxEdge\<close>, entered with the value of \<open>oldDist\<close> read by the
  enclosing \<open>if\<close>.
\<close>

function AsyncAlgoPP_relaxEdge_loop ::
  "GNode \<Rightarrow> Dist \<Rightarrow> Dist \<Rightarrow> ('a SNode_scheme) State \<times> UpdateRequest list
     \<Rightarrow> ('a SNode_scheme) State \<times> UpdateRequest list" where
  "AsyncAlgoPP_relaxEdge_loop dst newDist oldDist (st, pusher) =
     (let (ok, cell) = compare_exchange (dist (nodes st dst)) oldDist newDist;
          st1 = setDist st dst cell
      in if ok then
           (let st2 = (if trackWork \<and> oldDist \<noteq> DIST_INFINITY
                       then st1\<lparr>BadWork := BadWork st1 + 1\<rparr> else st1)
            in (st2, pusher @ [(dst, newDist)]))
         else
           (let oldDist' = dist (nodes st1 dst) in
            if newDist < oldDist'
            then AsyncAlgoPP_relaxEdge_loop dst newDist oldDist' (st1, pusher)
            else (st1, pusher)))"
  by pat_completeness auto
termination
  by (relation "measure (\<lambda>(dst, newDist, oldDist, st, pusher).
        if dist (nodes st dst) = oldDist then 0 else 1)")
     (auto simp: compare_exchange_def setDist_def split: if_splits)

text \<open>
  \<open>sdata\<close> is a reference to the caller's local copy of the source distance; the
  updated copy is returned as the second component.
\<close>

definition AsyncAlgoPP_relaxEdge ::
  "('a SNode_scheme) State \<Rightarrow> Dist \<Rightarrow> Edge \<Rightarrow> UpdateRequest list
     \<Rightarrow> ('a SNode_scheme) State \<times> Dist \<times> UpdateRequest list" where
  "AsyncAlgoPP_relaxEdge st sdata ii pusher =
     (let dst = fst ii; d = snd ii; newDist = sdata + d; oldDist = dist (nodes st dst) in
      if newDist < oldDist then
        (let r = AsyncAlgoPP_relaxEdge_loop dst newDist oldDist (st, pusher)
         in (fst r, sdata, snd r))
      else (st, min (oldDist + d) sdata, pusher))"

text \<open>The edge scan of \<open>AsyncAlgoPP::Process::operator()\<close> with its local \<open>sdist\<close>.\<close>

fun AsyncAlgoPP_scan ::
  "Edge list \<Rightarrow> ('a SNode_scheme) State \<times> Dist \<times> UpdateRequest list
     \<Rightarrow> ('a SNode_scheme) State \<times> Dist \<times> UpdateRequest list" where
  "AsyncAlgoPP_scan [] s = s"
| "AsyncAlgoPP_scan (ii # rest) (st, sdist, pusher) =
     AsyncAlgoPP_scan rest (AsyncAlgoPP_relaxEdge st sdist ii pusher)"

definition AsyncAlgoPP_Process ::
  "Graph \<Rightarrow> UpdateRequest \<Rightarrow> ('a SNode_scheme) State \<times> UpdateRequest list
     \<Rightarrow> ('a SNode_scheme) State \<times> UpdateRequest list" where
  "AsyncAlgoPP_Process g req sp =
     (let st = fst sp; pusher = snd sp; sdist = dist (nodes st (fst req)) in
      if snd req \<noteq> sdist then
        ((if trackWork then st\<lparr>WLEmptyWork := WLEmptyWork st + 1\<rparr> else st), pusher)
      else
        (let r = AsyncAlgoPP_scan (g ! fst req) (st, sdist, pusher)
         in (fst r, snd (snd r))))"

text \<open>
  \<open>AsyncSetAlgo::Initialize\<close> also clears the work-set flag of the node.
\<close>

definition AsyncSetAlgo_Initialize :: "SetNode State \<Rightarrow> GNode \<Rightarrow> SetNode State" where
  "AsyncSetAlgo_Initialize st n =
     st\<lparr>nodes := (nodes st)(n := (nodes st n)\<lparr>dist := DIST_INFINITY, inSet := False\<rparr>)\<rparr>"

section \<open>The verifier\<close>

text \<open>
  What the program prints is kept as a list of messages, in the order of printing:
  \<^item> \<open>SourceNonZero\<close>: "source has non-zero dist value";
  \<^item> \<open>Unvisited k\<close>: "k unvisited nodes; this is an error if the graph is strongly connected";
  \<^item> \<open>IncorrectDistance\<close>: "node found with incorrect distance";
  \<^item> \<open>MaxDist d\<close>: "max dist: d";
  \<^item> \<open>FailedToSet r s\<close>: "failed to set report: r or failed to set source: s";
  \<^item> \<open>NodeHasDistance r d\<close>: "Node r has distance d";
  \<^item> \<open>VerificationSuccessful\<close> and \<open>VerificationFailed\<close>.
\<close>

datatype message =
    SourceNonZero
  | Unvisited nat
  | IncorrectDistance
  | MaxDist Dist
  | FailedToSet "32 word" "32 word"
  | NodeHasDistance "32 word" Dist
  | VerificationSuccessful
  | VerificationFailed

definition not_visited :: "('a SNode_scheme) State \<Rightarrow> GNode \<Rightarrow> bool" where
  "not_visited st n = (dist (nodes st n) \<ge> DIST_INFINITY)"

text \<open>
  \<open>not_consistent\<close> for the graph types of this file, which are not segmented (the
  primary template, for segmented graphs, answers \<open>false\<close> for every node).  The sum
  \<open>dist + w\<close> is a 32-bit sum.
\<close>

fun not_consistent_loop :: "('a SNode_scheme) State \<Rightarrow> Dist \<Rightarrow> Edge list \<Rightarrow> bool" where
  "not_consistent_loop st d [] = False"
| "not_consistent_loop st d (ii # rest) =
     (let ddist = dist (nodes st (fst ii)); w = snd ii in
      if ddist > d + w then True else not_consistent_loop st d rest)"

definition not_consistent :: "Graph \<Rightarrow> ('a SNode_scheme) State \<Rightarrow> GNode \<Rightarrow> bool" where
  "not_consistent g st n =
     (let d = dist (nodes st n) in
      if d = DIST_INFINITY then False else not_consistent_loop st d (g ! n))"

text \<open>
  \<open>max_dist\<close> feeds every finite distance to a \<open>GReduceMax<Dist>\<close>, whose value
  is the largest one it has received, starting from 0.
\<close>

definition max_dist :: "('a SNode_scheme) State \<Rightarrow> Dist \<Rightarrow> GNode \<Rightarrow> Dist" where
  "max_dist st m n = (let d = dist (nodes st n) in if d = DIST_INFINITY then m else max m d)"

text \<open>
  \<open>count_if\<close> and \<open>find_if\<close> of the parallel STL range over all nodes of the graph.
\<close>

definition verify :: "Graph \<Rightarrow> ('a SNode_scheme) State \<Rightarrow> GNode \<Rightarrow> bool \<times> message list" where
  "verify g st source =
     (if dist (nodes st source) \<noteq> 0 then (False, [SourceNonZero])
      else
        (let notVisited = length (filter (not_visited st) [0..<length g]);
             warn = (if notVisited \<noteq> 0 then [Unvisited notVisited] else []);
             consistent = (find (not_consistent g st) [0..<length g] = None)
         in if \<not> consistent then (False, warn @ [IncorrectDistance])
            else (True, warn @ [MaxDist (foldl (max_dist st) 0 [0..<length g])])))"

section \<open>The driver\<close>

text \<open>
  The command-line options the driver reads: \<open>startNode\<close> and \<open>reportNode\<close> are
  \<open>unsigned int\<close>, \<open>stepShift\<close> (option \<open>delta\<close>) is an \<open>int\<close>.
\<close>

record Config =
  startNode :: "32 word"
  reportNode :: "32 word"
  stepShift :: int
  skipVerify :: bool

text \<open>
  How the process ends: \<open>main\<close> returns 0, \<open>initialize\<close> calls \<open>abort()\<close>, or
  \<open>GALOIS_DIE\<close> stops it after a failed verification.
\<close>

datatype exit_status = Returned | Aborted | Died

text \<open>
  \<open>initialize\<close> after \<open>readGraph\<close> has produced the graph \<open>g\<close>: the only check of
  the configuration.  The nodes \<open>source\<close> and \<open>report\<close> are the ones
  \<open>std::advance\<close> reaches from \<open>graph.begin()\<close>.
\<close>

definition initialize :: "Config \<Rightarrow> Graph \<Rightarrow> message list + GNode \<times> GNode" where
  "initialize cfg g =
     (if unat (startNode cfg) \<ge> length g \<or> unat (reportNode cfg) \<ge> length g
      then Inl [FailedToSet (reportNode cfg) (startNode cfg)]
      else Inr (unat (startNode cfg), unat (reportNode cfg)))"

text \<open>
  \<open>run<Algo>\<close>, with \<open>Algo::Initialize\<close> and \<open>Algo::operator()\<close> as parameters; an
  algorithm that does not return is the value \<open>None\<close>.
\<close>

definition run ::
  "(('a SNode_scheme) State \<Rightarrow> GNode \<Rightarrow> ('a SNode_scheme) State)
   \<Rightarrow> (Graph \<Rightarrow> GNode \<Rightarrow> ('a SNode_scheme) State \<Rightarrow> ('a SNode_scheme) State option)
   \<Rightarrow> Config \<Rightarrow> Graph \<Rightarrow> ('a SNode_scheme) State
   \<Rightarrow> (exit_status \<times> message list \<times> ('a SNode_scheme) State) option" where
  "run init algo cfg g st =
     (case initialize cfg g of
        Inl msgs \<Rightarrow> Some (Aborted, msgs, st)
      | Inr (source, report) \<Rightarrow>
          (case algo g source (foldl init st [0..<length g]) of
             None \<Rightarrow> None
           | Some st2 \<Rightarrow>
               (let out = [NodeHasDistance (reportNode cfg) (dist (nodes st2 report))] in
                if \<not> skipVerify cfg then
                  (let v = verify g st2 source in
                   if fst v then Some (Returned, out @ snd v @ [VerificationSuccessful], st2)
                   else Some (Died, out @ snd v @ [VerificationFailed], st2))
                else Some (Returned, out, st2))))"

section \<open>SerialAlgo\<close>

text \<open>
  The work list of \<open>SerialAlgo\<close> is a \<open>std::set<UpdateRequest, std::less<UpdateRequest>>\<close>.
  The comparison \<open>operator<\<close> of \<open>UpdateRequestCommon\<close> is declared in SSSP.h, which
  is not among the sources, so it is the parameter \<open>lt\<close>.  The set is kept as the list
  of its elements in increasing order: \<open>insert\<close> drops an element that is equivalent
  to one already present, \<open>*begin()\<close> is the head and \<open>erase(begin())\<close> the tail.
\<close>

fun set_insert :: "('a \<Rightarrow> 'a \<Rightarrow> bool) \<Rightarrow> 'a \<Rightarrow> 'a list \<Rightarrow> 'a list" where
  "set_insert lt x [] = [x]"
| "set_insert lt x (y # ys) =
     (if lt x y then x # y # ys
      else if lt y x then y # set_insert lt x ys
      else y # ys)"

text \<open>The body of the edge loop: one possible \<open>initial.insert\<close>.\<close>

definition SerialAlgo_edge ::
  "(UpdateRequest \<Rightarrow> UpdateRequest \<Rightarrow> bool) \<Rightarrow> ('a SNode_scheme) State \<Rightarrow> UpdateRequest
     \<Rightarrow> UpdateRequest list \<Rightarrow> Edge \<Rightarrow> UpdateRequest list" where
  "SerialAlgo_edge lt st req initial ii =
     (let dst = fst ii; d = snd ii; newDist = snd req + d in
      if newDist < dist (nodes st dst) then set_insert lt (dst, newDist) initial
      else initial)"

text \<open>
  The \<open>while (!initial.empty())\<close> loop; \<open>counter\<close> is the statistic
  \<open>Iterations\<close>.  The loop is not known to end for every input of this type, so
  it is a partial function: \<open>None\<close> stands for a loop that runs forever.
\<close>

partial_function (option) SerialAlgo_loop ::
  "(UpdateRequest \<Rightarrow> UpdateRequest \<Rightarrow> bool) \<Rightarrow> Graph \<Rightarrow> ('a SNode_scheme) State
     \<Rightarrow> UpdateRequest list \<Rightarrow> nat \<Rightarrow> (('a SNode_scheme) State \<times> nat) option" where
  "SerialAlgo_loop lt g st initial counter =
     (if initial = [] then Some (st, counter)
      else
        (let req = hd initial; initial1 = tl initial in
         if snd req < dist (nodes st (fst req)) then
           (let st1 = setDist st (fst req) (snd req) in
            SerialAlgo_loop lt g st1
              (foldl (SerialAlgo_edge lt st1 req) initial1 (g ! fst req)) (counter + 1))
         else SerialAlgo_loop lt g st initial1 (counter + 1)))"

definition SerialAlgo ::
  "(UpdateRequest \<Rightarrow> UpdateRequest \<Rightarrow> bool) \<Rightarrow> Graph \<Rightarrow> GNode \<Rightarrow> ('a SNode_scheme) State
     \<Rightarrow> ('a SNode_scheme) State option" where
  "SerialAlgo lt g src st = map_option fst (SerialAlgo_loop lt g st [(src, 0)] 0)"

section \<open>Edge-list loading (dist-graph-convert-helpers.h)\<close>

text \<open>
  The input stream is the C++ standard library's; the three operations the loader
  uses are parameters: \<open>seekg\<close>, \<open>tellg\<close> (a stream position, \<open>-1\<close> on failure)
  and the extraction \<open>>>\<close> of one \<open>uint32_t\<close>, which returns the value read and
  the stream after it.
\<close>

record 's ifstream =
  seekg :: "'s \<Rightarrow> 64 word \<Rightarrow> 's"
  tellg :: "'s \<Rightarrow> int"
  read_uint32 :: "'s \<Rightarrow> 32 word \<times> 's"

text \<open>A failed \<open>GALOIS_ASSERT\<close> aborts the process.\<close>

datatype galois_assert = AssertFailed

text \<open>The template argument \<open>EdgeDataTy\<close> only matters through \<open>std::is_void\<close>.\<close>

definition getNumEdges :: "bool \<Rightarrow> 32 word list \<Rightarrow> nat" where
  "getNumEdges is_void edgeVector =
     (if is_void then length edgeVector div 2 else length edgeVector div 3)"

text \<open>
  The reading loop.  \<open>localNumEdges\<close> and the size of the vector are natural
  numbers: a \<open>std::vector\<close> cannot hold \<open>2 ^ 64\<close> elements, so neither wraps.
\<close>

partial_function (option) loadEdges_loop ::
  "'s ifstream \<Rightarrow> bool \<Rightarrow> 64 word \<Rightarrow> 64 word \<Rightarrow> 's \<Rightarrow> nat \<Rightarrow> 32 word list
     \<Rightarrow> (galois_assert + 's \<times> nat \<times> 32 word list) option" where
  "loadEdges_loop io is_void localEndByte totalNumNodes s localNumEdges localEdges =
     (if (word_of_int (tellg io s + 1) :: 64 word) \<noteq> localEndByte then
        (let r1 = read_uint32 io s; src = fst r1;
             r2 = read_uint32 io (snd r1); dst = fst r2 in
         if \<not> (ucast src < totalNumNodes) then Some (Inl AssertFailed)
         else if \<not> (ucast dst < totalNumNodes) then Some (Inl AssertFailed)
         else
           (let localEdges1 = localEdges @ [src, dst] in
            if \<not> is_void then
              (let r3 = read_uint32 io (snd r2); edgeData = fst r3 in
               loadEdges_loop io is_void localEndByte totalNumNodes (snd r3)
                 (localNumEdges + 1) (localEdges1 @ [edgeData]))
            else
              loadEdges_loop io is_void localEndByte totalNumNodes (snd r2)
                (localNumEdges + 1) localEdges1))
      else Some (Inr (s, localNumEdges, localEdges)))"

definition loadEdgesFromEdgeList ::
  "'s ifstream \<Rightarrow> bool \<Rightarrow> 's \<Rightarrow> 64 word \<Rightarrow> 64 word \<Rightarrow> 64 word
     \<Rightarrow> (galois_assert + 's \<times> 32 word list) option" where
  "loadEdgesFromEdgeList io is_void edgeListFile localStartByte localEndByte totalNumNodes =
     (case loadEdges_loop io is_void localEndByte totalNumNodes
             (seekg io edgeListFile localStartByte) 0 [] of
        None \<Rightarrow> None
      | Some (Inl a) \<Rightarrow> Some (Inl a)
      | Some (Inr (s, localNumEdges, localEdges)) \<Rightarrow>
          (if is_void then
             (if localNumEdges = length localEdges div 2 then Some (Inr (s, localEdges))
              else Some (Inl AssertFailed))
           else
             (if localNumEdges = length localEdges div 3 then Some (Inr (s, localEdges))
              else Some (Inl AssertFailed))))"

section \<open>Parallel runs of the operators\<close>

text \<open>
  The operators run on several threads, so a run of the program interleaves the
  accesses to the distance cells of the operator applications in flight.  An
  application of \<open>AsyncAlgo::relaxNode\<close> is followed from one access to the next:
  \<^item> \<open>Start req\<close>: about to make the first test \<open>req.w != sdist\<close>;
  \<^item> \<open>Scan req rest\<close>: at the head of the edge loop, \<open>rest\<close> being the edges still
    to visit, about to make the test \<open>req.w != sdist\<close> of the loop;
  \<^item> \<open>Arg req ii rest\<close>: about to read \<open>sdist\<close> as the argument of \<open>relaxEdge\<close>
    for the edge \<open>ii\<close>;
  \<^item> \<open>Relax req ii rest newDist\<close>: inside \<open>relaxEdge\<close> with \<open>newDist\<close> computed,
    about to read \<open>ddata\<close> in the loop condition \<open>newDist < (oldDist = ddata)\<close>;
  \<^item> \<open>Write req ii rest newDist oldDist\<close>: the condition held for the value
    \<open>oldDist\<close> that was read; about to do the compare-and-swap, or, without
    \<open>UseCas\<close>, the store \<open>ddata = newDist\<close>;
  \<^item> \<open>Push req ii rest newDist\<close>: the new distance is stored; about to push the
    request.
  The counters \<open>BadWork\<close> and \<open>WLEmptyWork\<close> are updated in the step of the access
  that decides them.
\<close>

datatype thread =
    Start UpdateRequest
  | Scan UpdateRequest "Edge list"
  | Arg UpdateRequest Edge "Edge list"
  | Relax UpdateRequest Edge "Edge list" Dist
  | Write UpdateRequest Edge "Edge list" Dist Dist
  | Push UpdateRequest Edge "Edge list" Dist

definition empty_work :: "('a SNode_scheme) State \<Rightarrow> ('a SNode_scheme) State" where
  "empty_work st = (if trackWork then st\<lparr>WLEmptyWork := WLEmptyWork st + 1\<rparr> else st)"

definition bad_work :: "Dist \<Rightarrow> ('a SNode_scheme) State \<Rightarrow> ('a SNode_scheme) State" where
  "bad_work oldDist st =
     (if trackWork \<and> oldDist \<noteq> DIST_INFINITY then st\<lparr>BadWork := BadWork st + 1\<rparr> else st)"

text \<open>
  One step of one application: the new state, the requests it pushes and what is
  left of the application (nothing when it has returned).  A compare-and-swap that
  finds another value than \<open>oldDist\<close> fails, and the loop reads \<open>ddata\<close> again;
  without \<open>UseCas\<close> the store is done whatever the cell holds by then.
\<close>

fun AsyncAlgo_thread_step ::
  "bool \<Rightarrow> Graph \<Rightarrow> ('a SNode_scheme) State \<Rightarrow> thread
     \<Rightarrow> ('a SNode_scheme) State \<times> UpdateRequest list \<times> thread list" where
  "AsyncAlgo_thread_step UseCas g st (Start req) =
     (if snd req \<noteq> dist (nodes st (fst req)) then (empty_work st, [], [])
      else (st, [], [Scan req (g ! fst req)]))"
| "AsyncAlgo_thread_step UseCas g st (Scan req []) = (st, [], [])"
| "AsyncAlgo_thread_step UseCas g st (Scan req (ii # rest)) =
     (if snd req \<noteq> dist (nodes st (fst req)) then (empty_work st, [], [])
      else (st, [], [Arg req ii rest]))"
| "AsyncAlgo_thread_step UseCas g st (Arg req ii rest) =
     (st, [], [Relax req ii rest (dist (nodes st (fst req)) + snd ii)])"
| "AsyncAlgo_thread_step UseCas g st (Relax req ii rest newDist) =
     (let oldDist = dist (nodes st (fst ii)) in
      if newDist < oldDist then (st, [], [Write req ii rest newDist oldDist])
      else (st, [], [Scan req rest]))"
| "AsyncAlgo_thread_step UseCas g st (Write req ii rest newDist oldDist) =
     (if \<not> UseCas \<or> fst (compare_exchange (dist (nodes st (fst ii))) oldDist newDist)
      then (bad_work oldDist (setDist st (fst ii) newDist), [], [Push req ii rest newDist])
      else (st, [], [Relax req ii rest newDist]))"
| "AsyncAlgo_thread_step UseCas g st (Push req ii rest newDist) =
     (st, [(fst ii, newDist)], [Scan req rest])"

text \<open>
  Modelled from the spec: the runtime that runs the operators on several threads
  (\<open>Galois::do_all\<close>, \<open>Galois::for_each_local\<close>) is not among the sources.  By the
  specification the threads are scheduled preemptively and a distance cell is read
  and written atomically, so any application in flight may make the next step.
  \<open>compare_exchange_weak\<close> may also fail when the cell holds \<open>oldDist\<close> (rule
  \<open>weak\<close>).  The requests pushed go to the bag or the work list \<open>wl\<close>.
  The locks that \<open>MethodFlag::WRITE\<close> makes the runtime take in \<open>relaxNode\<close> when
  \<open>UseCas\<close> is false are part of that runtime, and the steps take no lock.  Under
  \<open>InitialProcess\<close> the source asks for none: the node data is read with
  \<open>MethodFlag::UNPROTECTED\<close>.  So without \<open>UseCas\<close> the runs of the work-list
  loop below include interleavings that these locks exclude, and what is proved of
  all runs is proved with \<open>UseCas\<close>.
\<close>

inductive AsyncAlgo_op_step ::
  "bool \<Rightarrow> Graph \<Rightarrow> ('a SNode_scheme) State \<times> UpdateRequest multiset \<times> thread multiset
     \<Rightarrow> ('a SNode_scheme) State \<times> UpdateRequest multiset \<times> thread multiset \<Rightarrow> bool"
  for UseCas :: bool and g :: Graph where
  run: "AsyncAlgo_thread_step UseCas g st t = (st', pushed, ts') \<Longrightarrow>
        AsyncAlgo_op_step UseCas g (st, wl, add_mset t ts) (st', wl + mset pushed, ts + mset ts')"
| weak: "UseCas \<Longrightarrow>
        AsyncAlgo_op_step UseCas g (st, wl, add_mset (Write req ii rest newDist oldDist) ts)
          (st, wl, add_mset (Relax req ii rest newDist) ts)"

text \<open>
  Modelled from the spec: \<open>Galois::for_each_local\<close> and its work lists (OBIM and
  \<open>dChunkedFIFO\<close>) are not among the sources.  By the specification each worker
  repeats pop, operator, pop until the work list is empty, a push always accepts,
  and the order of the items is approximate.  So a configuration is the state, the
  multiset of queued requests and the multiset of applications in flight; a step pops
  any queued request and starts its application, or is a step of an application in
  flight.  The run is complete when both multisets are empty.
\<close>

inductive AsyncAlgo_step ::
  "bool \<Rightarrow> Graph \<Rightarrow> ('a SNode_scheme) State \<times> UpdateRequest multiset \<times> thread multiset
     \<Rightarrow> ('a SNode_scheme) State \<times> UpdateRequest multiset \<times> thread multiset \<Rightarrow> bool"
  for UseCas :: bool and g :: Graph where
  pop: "AsyncAlgo_step UseCas g (st, add_mset req wl, ts) (st, wl, add_mset (Start req) ts)"
| op: "AsyncAlgo_op_step UseCas g c c' \<Longrightarrow> AsyncAlgo_step UseCas g c c'"

text \<open>
  Modelled from the spec: \<open>Galois::do_all\<close> is not among the sources.  In
  \<open>AsyncAlgo::operator()\<close> the source distance is set to 0 and \<open>do_all\<close> applies
  \<open>InitialProcess\<close> to every out-edge of the source in parallel: one application per
  edge, which reads \<open>sdata.dist\<close> and calls \<open>relaxEdge\<close> (the place \<open>Arg\<close>
  of a request \<open>(source, 0)\<close> with no edge left after \<open>ii\<close>).  The runs of
  \<open>AsyncAlgo_op_step\<close> from this configuration to one without applications are the
  schedules of the \<open>do_all\<close>, and the requests pushed are the bag \<open>initial\<close>.
  The runs of \<open>AsyncAlgo_step\<close> from it are those of the whole algorithm; they
  include the runs in which no request is popped before the \<open>do_all\<close> has ended.
\<close>

definition AsyncAlgo_start ::
  "Graph \<Rightarrow> GNode \<Rightarrow> ('a SNode_scheme) State
     \<Rightarrow> ('a SNode_scheme) State \<times> UpdateRequest multiset \<times> thread multiset" where
  "AsyncAlgo_start g source st =
     (setDist st source 0, {#}, mset (map (\<lambda>ii. Arg (source, 0) ii []) (g ! source)))"

text \<open>
  An application of \<open>AsyncSetAlgo::relaxNode\<close> to the node \<open>req\<close>:
  \<open>SetScan req rest\<close> is at the head of the edge loop, about to read \<open>sdata.dist\<close>
  inside \<open>relaxEdge\<close>; \<open>SetRelax\<close>, \<open>SetWrite\<close> and \<open>SetPush\<close> are the places
  of \<open>relaxEdge\<close> as above.  \<open>__sync_bool_compare_and_swap\<close> only fails when the
  cell holds another value.
\<close>

datatype set_thread =
    SetScan GNode "Edge list"
  | SetRelax GNode Edge "Edge list" Dist
  | SetWrite GNode Edge "Edge list" Dist Dist
  | SetPush GNode Edge "Edge list"

fun AsyncSetAlgo_thread_step ::
  "bool \<Rightarrow> ('a SNode_scheme) State \<Rightarrow> set_thread
     \<Rightarrow> ('a SNode_scheme) State \<times> GNode list \<times> set_thread list" where
  "AsyncSetAlgo_thread_step UseCas st (SetScan req []) = (st, [], [])"
| "AsyncSetAlgo_thread_step UseCas st (SetScan req (ii # rest)) =
     (st, [], [SetRelax req ii rest (dist (nodes st req) + snd ii)])"
| "AsyncSetAlgo_thread_step UseCas st (SetRelax req ii rest newDist) =
     (let oldDist = dist (nodes st (fst ii)) in
      if newDist < oldDist then (st, [], [SetWrite req ii rest newDist oldDist])
      else (st, [], [SetScan req rest]))"
| "AsyncSetAlgo_thread_step UseCas st (SetWrite req ii rest newDist oldDist) =
     (if \<not> UseCas \<or> fst (compare_exchange (dist (nodes st (fst ii))) oldDist newDist)
      then (bad_work oldDist (setDist st (fst ii) newDist), [], [SetPush req ii rest])
      else (st, [], [SetRelax req ii rest newDist]))"
| "AsyncSetAlgo_thread_step UseCas st (SetPush req ii rest) = (st, [fst ii], [SetScan req rest])"

text \<open>
  Modelled from the spec: the work-set layer (WorkSet.h and MarkingSet.h) is not
  among the sources.  By the specification a push that finds the vertex already in
  the set is dropped, and the vertex leaves the set when it is popped, before the
  operator reads its distance.  \<open>useSet\<close> tells whether the work list has this layer.
\<close>

definition work_set_push :: "bool \<Rightarrow> GNode multiset \<Rightarrow> GNode \<Rightarrow> GNode multiset" where
  "work_set_push useSet wl u = (if useSet \<and> u \<in># wl then wl else add_mset u wl)"

text \<open>
  Modelled from the spec: the runs of \<open>for_each_local\<close> over \<open>AsyncSetAlgo::Process\<close>,
  as for \<open>AsyncAlgo\<close>, with the pushes going through the work-set layer.
\<close>

inductive AsyncSetAlgo_step ::
  "bool \<Rightarrow> bool \<Rightarrow> Graph \<Rightarrow> ('a SNode_scheme) State \<times> GNode multiset \<times> set_thread multiset
     \<Rightarrow> ('a SNode_scheme) State \<times> GNode multiset \<times> set_thread multiset \<Rightarrow> bool"
  for UseCas :: bool and useSet :: bool and g :: Graph where
  pop: "AsyncSetAlgo_step UseCas useSet g
          (st, add_mset req wl, ts) (st, wl, add_mset (SetScan req (g ! req)) ts)"
| run: "AsyncSetAlgo_thread_step UseCas st t = (st', pushed, ts') \<Longrightarrow>
        AsyncSetAlgo_step UseCas useSet g
          (st, wl, add_mset t ts) (st', foldl (work_set_push useSet) wl pushed, ts + mset ts')"

text \<open>
  Modelled from the spec: the \<open>do_all\<close> of \<open>AsyncSetAlgo::operator()\<close>, one
  application of \<open>relaxEdge\<close> per out-edge of the source.
\<close>

definition AsyncSetAlgo_start ::
  "Graph \<Rightarrow> GNode \<Rightarrow> ('a SNode_scheme) State
     \<Rightarrow> ('a SNode_scheme) State \<times> GNode multiset \<times> set_thread multiset" where
  "AsyncSetAlgo_start g source st =
     (setDist st source 0, {#}, mset (map (\<lambda>ii. SetScan source [ii]) (g ! source)))"

text \<open>
  Particular schedules, used to exhibit runs.  \<open>AsyncAlgo_schedule\<close> makes the
  applications in flight step in a given order: each number of the list is the
  position, among the applications in flight, of the one that makes the next step.
  \<open>AsyncAlgo_fifo\<close> and \<open>AsyncSetAlgo_fifo\<close> are a single worker that applies the
  operator to the requests in first-in first-out order, for at most \<open>fuel\<close>
  requests.
\<close>

fun AsyncAlgo_schedule ::
  "bool \<Rightarrow> Graph \<Rightarrow> nat list
     \<Rightarrow> ('a SNode_scheme) State \<times> UpdateRequest list \<times> thread list
     \<Rightarrow> (('a SNode_scheme) State \<times> UpdateRequest list \<times> thread list) option" where
  "AsyncAlgo_schedule UseCas g [] c = Some c"
| "AsyncAlgo_schedule UseCas g (i # sched) (st, bag, ts) =
     (if i < length ts then
        (let r = AsyncAlgo_thread_step UseCas g st (ts ! i)
         in AsyncAlgo_schedule UseCas g sched
              (fst r, bag @ fst (snd r), take i ts @ snd (snd r) @ drop (Suc i) ts))
      else None)"

fun AsyncAlgo_fifo ::
  "nat \<Rightarrow> bool \<Rightarrow> Graph \<Rightarrow> ('a SNode_scheme) State \<Rightarrow> UpdateRequest list
     \<Rightarrow> ('a SNode_scheme) State option" where
  "AsyncAlgo_fifo fuel UseCas g st [] = Some st"
| "AsyncAlgo_fifo 0 UseCas g st (req # wl) = None"
| "AsyncAlgo_fifo (Suc fuel) UseCas g st (req # wl) =
     AsyncAlgo_fifo fuel UseCas g (fst (AsyncAlgo_relaxNode UseCas g req (st, [])))
       (wl @ snd (AsyncAlgo_relaxNode UseCas g req (st, [])))"

definition work_list_push :: "bool \<Rightarrow> GNode list \<Rightarrow> GNode \<Rightarrow> GNode list" where
  "work_list_push useSet wl u = (if useSet \<and> u \<in> set wl then wl else wl @ [u])"

fun AsyncSetAlgo_fifo ::
  "nat \<Rightarrow> bool \<Rightarrow> bool \<Rightarrow> Graph \<Rightarrow> ('a SNode_scheme) State \<Rightarrow> GNode list
     \<Rightarrow> ('a SNode_scheme) State option" where
  "AsyncSetAlgo_fifo fuel UseCas useSet g st [] = Some st"
| "AsyncSetAlgo_fifo 0 UseCas useSet g st (req # wl) = None"
| "AsyncSetAlgo_fifo (Suc fuel) UseCas useSet g st (req # wl) =
     AsyncSetAlgo_fifo fuel UseCas useSet g (fst (AsyncSetAlgo_relaxNode UseCas g req (st, [])))
       (foldl (work_list_push useSet) wl (snd (AsyncSetAlgo_relaxNode UseCas g req (st, []))))"

section \<open>Auxiliary notions used to state the properties\<close>

text \<open>
  The layout of one edge in the loaded vector, and the vectors that are the layout
  of \<open>n\<close> edges whose source and destination are below \<open>totalNumNodes\<close>.
\<close>

definition layout :: "bool \<Rightarrow> 32 word \<times> 32 word \<times> 32 word \<Rightarrow> 32 word list" where
  "layout is_void e =
     (if is_void then [fst e, fst (snd e)] else [fst e, fst (snd e), snd (snd e)])"

definition edges_in_range ::
  "bool \<Rightarrow> 64 word \<Rightarrow> nat \<Rightarrow> 32 word list \<Rightarrow> bool" where
  "edges_in_range is_void totalNumNodes n vec =
     (\<exists>es. vec = concat (map (layout is_void) es) \<and> length es = n \<and>
        (\<forall>e \<in> set es. ucast (fst e) < totalNumNodes \<and> ucast (fst (snd e)) < totalNumNodes))"


text \<open>
  The distances of a state; graphs whose edges lead to nodes of the graph; orders in
  which two different elements are always comparable.
\<close>

definition dists :: "('a SNode_scheme) State \<Rightarrow> GNode \<Rightarrow> Dist" where
  "dists st v = dist (nodes st v)"

definition wf_graph :: "Graph \<Rightarrow> bool" where
  "wf_graph g = (\<forall>v < length g. \<forall>e \<in> set (g ! v). fst e < length g)"

definition total_order :: "('a \<Rightarrow> 'a \<Rightarrow> bool) \<Rightarrow> bool" where
  "total_order lt = (\<forall>a b. a \<noteq> b \<longrightarrow> lt a b \<or> lt b a)"

text \<open>
  \<open>jpath g src D v L vs\<close>: \<open>vs\<close> is a path of \<open>g\<close> from \<open>src\<close> to \<open>v\<close> (last
  node first) without a repeated node, the sum of its weights, as a natural number,
  is \<open>L\<close>, and every node on it has under \<open>D\<close> a distance that is at most the
  length of the path up to that node.
\<close>

inductive jpath :: "Graph \<Rightarrow> GNode \<Rightarrow> (GNode \<Rightarrow> Dist) \<Rightarrow> GNode \<Rightarrow> nat \<Rightarrow> GNode list \<Rightarrow> bool"
  for g :: Graph and src :: GNode and D :: "GNode \<Rightarrow> Dist" where
  base: "D src = 0 \<Longrightarrow> jpath g src D src 0 [src]"
| step: "jpath g src D v L vs \<Longrightarrow> v < length g \<Longrightarrow> (u, d) \<in> set (g ! v) \<Longrightarrow> u \<notin> set vs
          \<Longrightarrow> unat (D u) \<le> L + unat d \<Longrightarrow> jpath g src D u (L + unat d) (u # vs)"

text \<open>
  No sum wraps: no path from the source without a repeated node, extended by one
  more edge, has a sum of weights of \<open>2 ^ 32\<close> or more.
\<close>

definition no_overflow :: "Graph \<Rightarrow> GNode \<Rightarrow> bool" where
  "no_overflow g src =
     (\<forall>v L vs u d. jpath g src (\<lambda>_. 0) v L vs \<longrightarrow> v < length g \<longrightarrow> (u, d) \<in> set (g ! v)
        \<longrightarrow> L + unat d < 2 ^ 32)"

text \<open>
  Every finite distance is the length of such a path; a proposed distance for \<open>u\<close>
  is 0 for the source, or the length of such a path extended by an edge to \<open>u\<close>;
  and no edge out of a reached node of the graph can be relaxed.
\<close>

definition justified :: "Graph \<Rightarrow> GNode \<Rightarrow> (GNode \<Rightarrow> Dist) \<Rightarrow> bool" where
  "justified g src D =
     (\<forall>v < length g. D v \<noteq> DIST_INFINITY \<longrightarrow> (\<exists>vs. jpath g src D v (unat (D v)) vs))"

definition proposed :: "Graph \<Rightarrow> GNode \<Rightarrow> (GNode \<Rightarrow> Dist) \<Rightarrow> GNode \<Rightarrow> Dist \<Rightarrow> bool" where
  "proposed g src D u nd =
     ((u = src \<and> nd = 0) \<or>
      (\<exists>v L vs d. jpath g src D v L vs \<and> v < length g \<and> (u, d) \<in> set (g ! v)
          \<and> unat nd = L + unat d))"

definition relaxed :: "Graph \<Rightarrow> (GNode \<Rightarrow> Dist) \<Rightarrow> bool" where
  "relaxed g D =
     (\<forall>v < length g. D v \<noteq> DIST_INFINITY \<longrightarrow>
        (\<forall>e \<in> set (g ! v). D (fst e) \<le> D v + snd e))"

text \<open>The invariant of the loop of \<open>SerialAlgo\<close>.\<close>

definition serial_inv ::
  "Graph \<Rightarrow> GNode \<Rightarrow> (GNode \<Rightarrow> Dist) \<Rightarrow> UpdateRequest list \<Rightarrow> bool" where
  "serial_inv g src D S =
     ((\<forall>r \<in> set S. fst r < length g \<and> proposed g src D (fst r) (snd r)) \<and>
      justified g src D \<and>
      (\<forall>v < length g. D v \<noteq> DIST_INFINITY \<longrightarrow>
         (\<forall>e \<in> set (g ! v). D (fst e) \<le> D v + snd e \<or> (fst e, D v + snd e) \<in> set S)) \<and>
      (D src = 0 \<or> (src, 0) \<in> set S))"

text \<open>
  The invariant of the runs of \<open>AsyncAlgo\<close> with compare-and-swap: every edge out of
  a reached node is relaxed, or the request for that node at its current distance is
  queued or about to be pushed, or an application in flight for that request still
  has the edge before it.
\<close>

fun thread_ok :: "Graph \<Rightarrow> GNode \<Rightarrow> (GNode \<Rightarrow> Dist) \<Rightarrow> thread \<Rightarrow> bool" where
  "thread_ok g src D (Start r) = (fst r < length g \<and> D (fst r) \<noteq> DIST_INFINITY)"
| "thread_ok g src D (Scan r es) =
     (fst r < length g \<and> D (fst r) \<noteq> DIST_INFINITY \<and> set es \<subseteq> set (g ! fst r))"
| "thread_ok g src D (Arg r e es) =
     (fst r < length g \<and> D (fst r) \<noteq> DIST_INFINITY \<and> e \<in> set (g ! fst r) \<and>
      set es \<subseteq> set (g ! fst r))"
| "thread_ok g src D (Relax r e es nd) =
     (fst r < length g \<and> D (fst r) \<noteq> DIST_INFINITY \<and> e \<in> set (g ! fst r) \<and>
      set es \<subseteq> set (g ! fst r) \<and> proposed g src D (fst e) nd)"
| "thread_ok g src D (Write r e es nd od) =
     (fst r < length g \<and> D (fst r) \<noteq> DIST_INFINITY \<and> e \<in> set (g ! fst r) \<and>
      set es \<subseteq> set (g ! fst r) \<and> proposed g src D (fst e) nd \<and> nd < od)"
| "thread_ok g src D (Push r e es nd) =
     (fst r < length g \<and> D (fst r) \<noteq> DIST_INFINITY \<and> set es \<subseteq> set (g ! fst r) \<and>
      fst e < length g \<and> D (fst e) \<noteq> DIST_INFINITY)"

fun covers :: "thread \<Rightarrow> GNode \<Rightarrow> Dist \<Rightarrow> Edge \<Rightarrow> bool" where
  "covers (Start r) v w e = (r = (v, w))"
| "covers (Scan r es) v w e = (r = (v, w) \<and> e \<in> set es)"
| "covers (Arg r e' es) v w e = (r = (v, w) \<and> (e = e' \<or> e \<in> set es))"
| "covers (Relax r e' es nd) v w e = (r = (v, w) \<and> ((e = e' \<and> nd = w + snd e) \<or> e \<in> set es))"
| "covers (Write r e' es nd od) v w e =
     (r = (v, w) \<and> ((e = e' \<and> nd = w + snd e) \<or> e \<in> set es))"
| "covers (Push r e' es nd) v w e = ((r = (v, w) \<and> e \<in> set es) \<or> (fst e', nd) = (v, w))"

definition async_inv ::
  "Graph \<Rightarrow> GNode \<Rightarrow> (GNode \<Rightarrow> Dist) \<Rightarrow> UpdateRequest multiset \<Rightarrow> thread multiset \<Rightarrow> bool" where
  "async_inv g src D wl ts =
     (D src = 0 \<and> justified g src D \<and>
      (\<forall>r \<in># wl. fst r < length g \<and> D (fst r) \<noteq> DIST_INFINITY) \<and>
      (\<forall>t \<in># ts. thread_ok g src D t) \<and>
      (\<forall>v < length g. D v \<noteq> DIST_INFINITY \<longrightarrow>
         (\<forall>e \<in> set (g ! v). D (fst e) \<le> D v + snd e \<or> (v, D v) \<in># wl \<or>
            (\<exists>t \<in># ts. covers t v (D v) e))))"

text \<open>The same for \<open>AsyncSetAlgo\<close>, where a queued node stands for its current distance.\<close>

fun set_thread_ok :: "Graph \<Rightarrow> GNode \<Rightarrow> (GNode \<Rightarrow> Dist) \<Rightarrow> set_thread \<Rightarrow> bool" where
  "set_thread_ok g src D (SetScan v es) =
     (v < length g \<and> D v \<noteq> DIST_INFINITY \<and> set es \<subseteq> set (g ! v))"
| "set_thread_ok g src D (SetRelax v e es nd) =
     (v < length g \<and> D v \<noteq> DIST_INFINITY \<and> e \<in> set (g ! v) \<and>
      set es \<subseteq> set (g ! v) \<and> proposed g src D (fst e) nd)"
| "set_thread_ok g src D (SetWrite v e es nd od) =
     (v < length g \<and> D v \<noteq> DIST_INFINITY \<and> e \<in> set (g ! v) \<and>
      set es \<subseteq> set (g ! v) \<and> proposed g src D (fst e) nd \<and> nd < od)"
| "set_thread_ok g src D (SetPush v e es) =
     (v < length g \<and> D v \<noteq> DIST_INFINITY \<and> set es \<subseteq> set (g ! v) \<and>
      fst e < length g \<and> D (fst e) \<noteq> DIST_INFINITY)"

fun set_covers :: "set_thread \<Rightarrow> GNode \<Rightarrow> Dist \<Rightarrow> Edge \<Rightarrow> bool" where
  "set_covers (SetScan v' es) v w e = (v' = v \<and> e \<in> set es)"
| "set_covers (SetRelax v' e' es nd) v w e =
     (v' = v \<and> ((e = e' \<and> nd = w + snd e) \<or> e \<in> set es))"
| "set_covers (SetWrite v' e' es nd od) v w e =
     (v' = v \<and> ((e = e' \<and> nd = w + snd e) \<or> e \<in> set es))"
| "set_covers (SetPush v' e' es) v w e = ((v' = v \<and> e \<in> set es) \<or> fst e' = v)"

definition set_inv ::
  "Graph \<Rightarrow> GNode \<Rightarrow> (GNode \<Rightarrow> Dist) \<Rightarrow> GNode multiset \<Rightarrow> set_thread multiset \<Rightarrow> bool" where
  "set_inv g src D wl ts =
     (D src = 0 \<and> justified g src D \<and>
      (\<forall>v \<in># wl. v < length g \<and> D v \<noteq> DIST_INFINITY) \<and>
      (\<forall>t \<in># ts. set_thread_ok g src D t) \<and>
      (\<forall>v < length g. D v \<noteq> DIST_INFINITY \<longrightarrow>
         (\<forall>e \<in> set (g ! v). D (fst e) \<le> D v + snd e \<or> v \<in># wl \<or>
            (\<exists>t \<in># ts. set_covers t v (D v) e))))"

text \<open>The sum of the distances of the nodes of the graph.\<close>

definition dist_sum :: "Graph \<Rightarrow> ('a SNode_scheme) State \<Rightarrow> nat" where
  "dist_sum g st = (\<Sum>v < length g. unat (dists st v))"



fun pushes :: "thread \<Rightarrow> UpdateRequest \<Rightarrow> bool" where
  "pushes (Push r e rest nd) q = (q = (fst e, nd))"
| "pushes (Start r) q = False"
| "pushes (Scan r rest) q = False"
| "pushes (Arg r e rest) q = False"
| "pushes (Relax r e rest nd) q = False"
| "pushes (Write r e rest nd od) q = False"


section \<open>Concrete inputs\<close>

text \<open>
  A state given by the list of its distances (every other node at \<open>DIST_INFINITY\<close>),
  two small graphs, a configuration, the order of requests by distance and then by
  node, and an input stream over a list of numbers in which the \<open>k\<close>-th number
  ends at byte \<open>2 * k - 1\<close>.
\<close>

definition ex_nodes :: "Dist list \<Rightarrow> GNode \<Rightarrow> SNode" where
  "ex_nodes ds n = \<lparr>dist = (if n < length ds then ds ! n else DIST_INFINITY)\<rparr>"

definition ex_state :: "Dist list \<Rightarrow> SNode State" where
  "ex_state ds = \<lparr>nodes = ex_nodes ds, BadWork = 0, WLEmptyWork = 0\<rparr>"

definition ex_config :: "32 word \<Rightarrow> 32 word \<Rightarrow> int \<Rightarrow> Config" where
  "ex_config s r d = \<lparr>startNode = s, reportNode = r, stepShift = d, skipVerify = False\<rparr>"

definition ex_graph :: Graph where
  "ex_graph = [[(1, 5)], []]"


definition by_distance :: "UpdateRequest \<Rightarrow> UpdateRequest \<Rightarrow> bool" where
  "by_distance a b = (snd a < snd b \<or> (snd a = snd b \<and> fst a < fst b))"

definition ex_ifstream :: "(nat \<times> 32 word list) ifstream" where
  "ex_ifstream =
     \<lparr>seekg = (\<lambda>s p. s),
      tellg = (\<lambda>s. if fst s = 0 then 0 else 2 * int (fst s) - 1),
      read_uint32 = (\<lambda>s. case snd s of [] \<Rightarrow> (0, s) | t # r \<Rightarrow> (t, (fst s + 1, r)))\<rparr>"

text \<open>
  Three more graphs: one on which a sum wraps, one without parallel edges, and one
  with two parallel edges out of node 0.
\<close>

definition ex_wrap_graph :: Graph where
  "ex_wrap_graph = [[(1, 3), (2, 1)], [(3, 0xFFFFFFFD)], [(1, 1)], []]"

definition ex_graph3 :: Graph where
  "ex_graph3 = [[(1, 5), (2, 1)], [], [(1, 1)]]"

definition ex_race_graph :: Graph where
  "ex_race_graph = [[(1, 5), (1, 3)], []]"

section \<open>Basic facts about the relaxation loops\<close>

lemma AsyncAlgo_relaxEdge_loop_eq:
  "AsyncAlgo_relaxEdge_loop UseCas dst newDist (st, pusher) =
     (if newDist < dist (nodes st dst) then
        ((if dist (nodes st dst) \<noteq> DIST_INFINITY
          then (setDist st dst newDist)\<lparr>BadWork := BadWork st + 1\<rparr>
          else setDist st dst newDist),
         pusher @ [(dst, newDist)])
      else (st, pusher))"
  by (cases UseCas)
     (simp_all add: compare_exchange_def setDist_def trackWork_def Let_def)

lemma AsyncSetAlgo_relaxEdge_loop_eq:
  "AsyncSetAlgo_relaxEdge_loop UseCas dst newDist (st, pusher) =
     (if newDist < dist (nodes st dst) then
        ((if dist (nodes st dst) \<noteq> DIST_INFINITY
          then (setDist st dst newDist)\<lparr>BadWork := BadWork st + 1\<rparr>
          else setDist st dst newDist),
         pusher @ [dst])
      else (st, pusher))"
  by (cases UseCas)
     (simp_all add: compare_exchange_def setDist_def trackWork_def Let_def)

lemma AsyncAlgoPP_relaxEdge_loop_eq:
  "AsyncAlgoPP_relaxEdge_loop dst newDist (dist (nodes st dst)) (st, pusher) =
     ((if dist (nodes st dst) \<noteq> DIST_INFINITY
       then (setDist st dst newDist)\<lparr>BadWork := BadWork st + 1\<rparr>
       else setDist st dst newDist),
      pusher @ [(dst, newDist)])"
  by (simp add: compare_exchange_def setDist_def trackWork_def Let_def)

declare AsyncAlgo_relaxEdge_loop.simps [simp del]
declare AsyncSetAlgo_relaxEdge_loop.simps [simp del]
declare AsyncAlgoPP_relaxEdge_loop.simps [simp del]

lemma DIST_INFINITY_minus_one: "DIST_INFINITY = - 1"
  by (simp add: DIST_INFINITY_def)

lemma DIST_INFINITY_max: "d \<le> DIST_INFINITY"
  by (simp add: DIST_INFINITY_minus_one)

lemma unat_Dist_add: "unat (a + b :: Dist) = (unat a + unat b) mod 2 ^ 32"
  by (simp add: unat_word_ariths)

lemma Dist_add_less_iff:
  "(a + b < (c :: Dist)) = ((unat a + unat b) mod 2 ^ 32 < unat c)"
  by (simp add: word_less_nat_alt unat_Dist_add)

lemma Dist_add_INF_not_less:
  assumes "unat a + unat b = unat DIST_INFINITY"
  shows "\<not> a + b < (c :: Dist)"
proof -
  have "unat c \<le> unat DIST_INFINITY"
    using DIST_INFINITY_max [of c] by (simp only: word_le_nat_alt)
  moreover have "unat (a + b) = unat DIST_INFINITY"
    using assms by (simp add: unat_Dist_add DIST_INFINITY_def)
  ultimately show ?thesis by (simp add: word_less_nat_alt)
qed

lemma AsyncAlgo_relaxEdge_eq:
  "AsyncAlgo_relaxEdge UseCas st sdist (u, wt) pusher =
     (if sdist + wt < dist (nodes st u) then
        ((if dist (nodes st u) \<noteq> DIST_INFINITY
          then (setDist st u (sdist + wt))\<lparr>BadWork := BadWork st + 1\<rparr>
          else setDist st u (sdist + wt)),
         pusher @ [(u, sdist + wt)])
      else (st, pusher))"
  by (simp add: AsyncAlgo_relaxEdge_def AsyncAlgo_relaxEdge_loop_eq Let_def)

lemma AsyncSetAlgo_relaxEdge_eq:
  "AsyncSetAlgo_relaxEdge UseCas st v (u, wt) pusher =
     (if dist (nodes st v) + wt < dist (nodes st u) then
        ((if dist (nodes st u) \<noteq> DIST_INFINITY
          then (setDist st u (dist (nodes st v) + wt))\<lparr>BadWork := BadWork st + 1\<rparr>
          else setDist st u (dist (nodes st v) + wt)),
         pusher @ [u])
      else (st, pusher))"
  by (simp add: AsyncSetAlgo_relaxEdge_def AsyncSetAlgo_relaxEdge_loop_eq Let_def)

lemma AsyncAlgoPP_relaxEdge_eq:
  "AsyncAlgoPP_relaxEdge st sdata (u, d) pusher =
     (if sdata + d < dist (nodes st u) then
        ((if dist (nodes st u) \<noteq> DIST_INFINITY
          then (setDist st u (sdata + d))\<lparr>BadWork := BadWork st + 1\<rparr>
          else setDist st u (sdata + d)),
         sdata, pusher @ [(u, sdata + d)])
      else (st, min (dist (nodes st u) + d) sdata, pusher))"
  by (simp add: AsyncAlgoPP_relaxEdge_def AsyncAlgoPP_relaxEdge_loop_eq Let_def)

section \<open>Edge relaxation\<close>

text \<open>
  C2: one call of \<open>relaxEdge\<close> on the edge from \<open>v\<close> to \<open>u\<close> with weight \<open>wt\<close>,
  where \<open>newDist = dist[v] + wt\<close> is the 32-bit sum.  If \<open>newDist\<close> is not below
  \<open>dist[u]\<close>, the state and the pushed requests are unchanged.  If it is below,
  \<open>dist[u]\<close> becomes \<open>newDist\<close> and exactly one request is appended: \<open>(u, newDist)\<close>
  in \<open>AsyncAlgo\<close>, \<open>u\<close> in \<open>AsyncSetAlgo\<close>.  No other node changes, and \<open>dist[u]\<close>
  never increases.  Both values of \<open>UseCas\<close> behave alike when the call runs alone.
\<close>

theorem relaxEdge_effect:
  fixes st :: "('a SNode_scheme) State"
  shows
  "(\<not> dist (nodes st v) + wt < dist (nodes st u) \<longrightarrow>
       AsyncAlgo_relaxEdge UseCas st (dist (nodes st v)) (u, wt) pusher = (st, pusher) \<and>
       AsyncSetAlgo_relaxEdge UseCas st v (u, wt) spusher = (st, spusher)) \<and>
   (dist (nodes st v) + wt < dist (nodes st u) \<longrightarrow>
       dist (nodes (fst (AsyncAlgo_relaxEdge UseCas st (dist (nodes st v)) (u, wt) pusher)) u)
         = dist (nodes st v) + wt \<and>
       snd (AsyncAlgo_relaxEdge UseCas st (dist (nodes st v)) (u, wt) pusher)
         = pusher @ [(u, dist (nodes st v) + wt)] \<and>
       dist (nodes (fst (AsyncSetAlgo_relaxEdge UseCas st v (u, wt) spusher)) u)
         = dist (nodes st v) + wt \<and>
       snd (AsyncSetAlgo_relaxEdge UseCas st v (u, wt) spusher) = spusher @ [u]) \<and>
   (\<forall>x. x \<noteq> u \<longrightarrow>
       nodes (fst (AsyncAlgo_relaxEdge UseCas st (dist (nodes st v)) (u, wt) pusher)) x
         = nodes st x \<and>
       nodes (fst (AsyncSetAlgo_relaxEdge UseCas st v (u, wt) spusher)) x = nodes st x) \<and>
   dist (nodes (fst (AsyncAlgo_relaxEdge UseCas st (dist (nodes st v)) (u, wt) pusher)) u)
     \<le> dist (nodes st u) \<and>
   dist (nodes (fst (AsyncSetAlgo_relaxEdge UseCas st v (u, wt) spusher)) u)
     \<le> dist (nodes st u)"
  by (auto simp add: AsyncAlgo_relaxEdge_eq AsyncSetAlgo_relaxEdge_eq setDist_def)

theorem relaxEdge_effect_witness:
  "(3 :: Dist) + 4 < 10 \<and>
   dist (nodes (fst (AsyncAlgo_relaxEdge True (ex_state [3, 10]) 3 (1, 4) [])) 1) = 7 \<and>
   snd (AsyncAlgo_relaxEdge True (ex_state [3, 10]) 3 (1, 4) []) = [(1, 7)] \<and>
   dist (nodes (fst (AsyncSetAlgo_relaxEdge True (ex_state [3, 10]) 0 (1, 4) [])) 1) = 7 \<and>
   snd (AsyncSetAlgo_relaxEdge True (ex_state [3, 10]) 0 (1, 4) []) = [1] \<and>
   \<not> (3 :: Dist) + 9 < 10 \<and>
   AsyncAlgo_relaxEdge False (ex_state [3, 10]) 3 (1, 9) [] = (ex_state [3, 10], []) \<and>
   AsyncSetAlgo_relaxEdge False (ex_state [3, 10]) 0 (1, 9) [] = (ex_state [3, 10], [])"
  using relaxEdge_effect [of "ex_state [3, 10]" 0 4 1 True "[]" "[]"]
        relaxEdge_effect [of "ex_state [3, 10]" 0 9 1 False "[]" "[]"]
  by (simp add: ex_state_def ex_nodes_def)

text \<open>
  C8: when an edge is relaxed (\<open>newDist < oldDist\<close>), \<open>BadWork\<close> grows by exactly 1 if the
  overwritten \<open>oldDist\<close> was not \<open>DIST_INFINITY\<close>, and stays as it is if it was.
\<close>

theorem BadWork_counts:
  fixes st :: "('a SNode_scheme) State"
  shows
  "sdist + wt < dist (nodes st u) \<longrightarrow>
     BadWork (fst (AsyncAlgo_relaxEdge UseCas st sdist (u, wt) pusher))
       = (if dist (nodes st u) \<noteq> DIST_INFINITY then BadWork st + 1 else BadWork st) \<and>
     (sdist = dist (nodes st v) \<longrightarrow>
        BadWork (fst (AsyncSetAlgo_relaxEdge UseCas st v (u, wt) spusher))
          = (if dist (nodes st u) \<noteq> DIST_INFINITY then BadWork st + 1 else BadWork st))"
  by (auto simp add: AsyncAlgo_relaxEdge_eq AsyncSetAlgo_relaxEdge_eq setDist_def)

theorem BadWork_counts_witness:
  "(3 :: Dist) + 4 < dist (nodes (ex_state [3, 10]) 1) \<and>
   dist (nodes (ex_state [3, 10]) 1) \<noteq> DIST_INFINITY \<and>
   BadWork (fst (AsyncAlgo_relaxEdge True (ex_state [3, 10]) 3 (1, 4) [])) = 1 \<and>
   BadWork (fst (AsyncSetAlgo_relaxEdge True (ex_state [3, 10]) 0 (1, 4) [])) = 1 \<and>
   (3 :: Dist) + 4 < dist (nodes (ex_state [3, DIST_INFINITY]) 1) \<and>
   BadWork (fst (AsyncAlgo_relaxEdge True (ex_state [3, DIST_INFINITY]) 3 (1, 4) [])) = 0 \<and>
   BadWork (fst (AsyncSetAlgo_relaxEdge True (ex_state [3, DIST_INFINITY]) 0 (1, 4) [])) = 0"
  using BadWork_counts [of 3 4 "ex_state [3, 10]" 1 True "[]" 0 "[]"]
        BadWork_counts [of 3 4 "ex_state [3, DIST_INFINITY]" 1 True "[]" 0 "[]"]
  by (simp add: ex_state_def ex_nodes_def DIST_INFINITY_def)

text \<open>
  The sum \<open>dist[v] + w\<close> wraps: from \<open>dist[v] = 0xFFFFFFF0\<close> an edge of weight
  \<open>0x20\<close> proposes \<open>0x10\<close>, and a destination at \<open>0x100\<close> is relaxed to \<open>0x10\<close>,
  although the true sum is above \<open>DIST_INFINITY\<close>.
\<close>

theorem relaxEdge_overflow_counterexample:
  "unat DIST_INFINITY \<le> unat (0xFFFFFFF0 :: Dist) + unat (0x20 :: Dist) \<and>
   dist (nodes (ex_state [0xFFFFFFF0, 0x100]) 0) = 0xFFFFFFF0 \<and>
   dist (nodes (ex_state [0xFFFFFFF0, 0x100]) 1) = 0x100 \<and>
   dist (nodes (fst (AsyncAlgo_relaxEdge True (ex_state [0xFFFFFFF0, 0x100])
                       0xFFFFFFF0 (1, 0x20) [])) 1) = 0x10 \<and>
   snd (AsyncAlgo_relaxEdge True (ex_state [0xFFFFFFF0, 0x100]) 0xFFFFFFF0 (1, 0x20) [])
     = [(1, 0x10)] \<and>
   dist (nodes (fst (AsyncSetAlgo_relaxEdge True (ex_state [0xFFFFFFF0, 0x100])
                       0 (1, 0x20) [])) 1) = 0x10 \<and>
   dist (nodes (fst (AsyncAlgoPP_relaxEdge (ex_state [0xFFFFFFF0, 0x100])
                       0xFFFFFFF0 (1, 0x20) [])) 1) = 0x10"
  by (simp add: AsyncAlgo_relaxEdge_eq AsyncSetAlgo_relaxEdge_eq AsyncAlgoPP_relaxEdge_eq
        ex_state_def ex_nodes_def DIST_INFINITY_def setDist_def)

text \<open>
  C4 (as amended): the proposed distance is the sum modulo \<open>2 ^ 32\<close>; the edge is relaxed exactly
  when this wrapped sum is below \<open>dist[u]\<close>, and then \<open>dist[u]\<close> becomes the wrapped
  sum.  When the true sum is exactly \<open>DIST_INFINITY\<close> nothing is relaxed.  This holds
  for the three \<open>relaxEdge\<close> functions.
\<close>

theorem relaxEdge_wraps:
  fixes st :: "('a SNode_scheme) State"
  shows
  "unat (dist (nodes (fst (AsyncAlgo_relaxEdge UseCas st sdist (u, wt) pusher)) u))
     = (if (unat sdist + unat wt) mod 2 ^ 32 < unat (dist (nodes st u))
        then (unat sdist + unat wt) mod 2 ^ 32 else unat (dist (nodes st u))) \<and>
   unat (dist (nodes (fst (AsyncAlgoPP_relaxEdge st sdist (u, wt) pusher)) u))
     = (if (unat sdist + unat wt) mod 2 ^ 32 < unat (dist (nodes st u))
        then (unat sdist + unat wt) mod 2 ^ 32 else unat (dist (nodes st u))) \<and>
   (sdist = dist (nodes st v) \<longrightarrow>
    unat (dist (nodes (fst (AsyncSetAlgo_relaxEdge UseCas st v (u, wt) spusher)) u))
     = (if (unat sdist + unat wt) mod 2 ^ 32 < unat (dist (nodes st u))
        then (unat sdist + unat wt) mod 2 ^ 32 else unat (dist (nodes st u)))) \<and>
   (unat sdist + unat wt = unat DIST_INFINITY \<longrightarrow>
      AsyncAlgo_relaxEdge UseCas st sdist (u, wt) pusher = (st, pusher) \<and>
      fst (AsyncAlgoPP_relaxEdge st sdist (u, wt) pusher) = st \<and>
      (sdist = dist (nodes st v) \<longrightarrow>
         AsyncSetAlgo_relaxEdge UseCas st v (u, wt) spusher = (st, spusher)))"
  using Dist_add_INF_not_less [of sdist wt "dist (nodes st u)"]
  by (auto simp add: AsyncAlgo_relaxEdge_eq AsyncSetAlgo_relaxEdge_eq
        AsyncAlgoPP_relaxEdge_eq setDist_def unat_Dist_add Dist_add_less_iff)

theorem relaxEdge_wraps_witness:
  "(unat (0xFFFFFFF0 :: Dist) + unat (0x20 :: Dist)) mod 2 ^ 32 = 0x10 \<and>
   unat (dist (nodes (fst (AsyncAlgo_relaxEdge True (ex_state [0xFFFFFFF0, 0x100])
                             0xFFFFFFF0 (1, 0x20) [])) 1)) = 0x10 \<and>
   unat (dist (nodes (fst (AsyncSetAlgo_relaxEdge True (ex_state [0xFFFFFFF0, 0x100])
                             0 (1, 0x20) [])) 1)) = 0x10 \<and>
   unat (0xFFFFFFF0 :: Dist) + unat (0xF :: Dist) = unat DIST_INFINITY \<and>
   AsyncAlgo_relaxEdge True (ex_state [0xFFFFFFF0, 0x100]) 0xFFFFFFF0 (1, 0xF) []
     = (ex_state [0xFFFFFFF0, 0x100], []) \<and>
   AsyncSetAlgo_relaxEdge True (ex_state [0xFFFFFFF0, 0x100]) 0 (1, 0xF) []
     = (ex_state [0xFFFFFFF0, 0x100], [])"
  using relaxEdge_wraps [of True "ex_state [0xFFFFFFF0, 0x100]" "0xFFFFFFF0" 1 "0x20" "[]" 0 "[]"]
        relaxEdge_wraps [of True "ex_state [0xFFFFFFF0, 0x100]" "0xFFFFFFF0" 1 "0xF" "[]" 0 "[]"]
  by (simp add: ex_state_def ex_nodes_def DIST_INFINITY_def)

section \<open>Empty work\<close>

text \<open>
  C5: a request \<open>(v, w)\<close> with \<open>w \<noteq> dist[v]\<close> makes \<open>AsyncAlgo::relaxNode\<close> (and the
  operator of \<open>AsyncAlgoPP\<close>) add 1 to \<open>WLEmptyWork\<close> and return: no distance
  changes, \<open>BadWork\<close> is unchanged and nothing is pushed.
\<close>

theorem relaxNode_empty_work:
  fixes st :: "('a SNode_scheme) State"
  shows
  "snd req \<noteq> dist (nodes st (fst req)) \<longrightarrow>
     AsyncAlgo_relaxNode UseCas g req (st, pusher)
       = (st\<lparr>WLEmptyWork := WLEmptyWork st + 1\<rparr>, pusher) \<and>
     AsyncAlgoPP_Process g req (st, pusher)
       = (st\<lparr>WLEmptyWork := WLEmptyWork st + 1\<rparr>, pusher)"
  by (simp add: AsyncAlgo_relaxNode_def AsyncAlgoPP_Process_def trackWork_def)

theorem relaxNode_empty_work_witness:
  "snd (1 :: GNode, 7 :: Dist) \<noteq> dist (nodes (ex_state [0, 5]) (fst (1 :: GNode, 7 :: Dist))) \<and>
   AsyncAlgo_relaxNode True [[(1, 5)], [(0, 1)]] (1, 7) (ex_state [0, 5], [])
     = ((ex_state [0, 5])\<lparr>WLEmptyWork := 1\<rparr>, []) \<and>
   AsyncAlgoPP_Process [[(1, 5)], [(0, 1)]] (1, 7) (ex_state [0, 5], [])
     = ((ex_state [0, 5])\<lparr>WLEmptyWork := 1\<rparr>, [])"
  using relaxNode_empty_work [of "(1, 7)" "ex_state [0, 5]" True "[[(1, 5)], [(0, 1)]]" "[]"]
  by (simp add: ex_state_def ex_nodes_def)

section \<open>The push-pull operator\<close>

lemma AsyncAlgoPP_scan_other:
  "x \<notin> fst ` set es \<Longrightarrow> nodes (fst (AsyncAlgoPP_scan es (st, sd, p))) x = nodes st x"
proof (induction es arbitrary: st sd p)
  case Nil
  then show ?case by simp
next
  case (Cons e es)
  obtain u d where e: "e = (u, d)" by (cases e)
  obtain st1 sd1 p1 where r: "AsyncAlgoPP_relaxEdge st sd (u, d) p = (st1, sd1, p1)"
    by (cases "AsyncAlgoPP_relaxEdge st sd (u, d) p")
  from Cons.prems e have "x \<noteq> u" by auto
  with r have "nodes st1 x = nodes st x"
    by (auto simp: AsyncAlgoPP_relaxEdge_eq setDist_def split: if_splits)
  moreover have "nodes (fst (AsyncAlgoPP_scan es (st1, sd1, p1))) x = nodes st1 x"
    using Cons.IH [of st1 sd1 p1] Cons.prems by simp
  ultimately show ?case by (simp add: e r)
qed

text \<open>
  The operator has no write-back of \<open>sdist\<close> (the code for it is commented out): for
  the request \<open>(0, 10)\<close> on a graph with the single edge from 0 to 1 of weight 1 and
  \<open>dist = [10, 2]\<close>, the scan lowers the local \<open>sdist\<close> to 3, and the operator
  leaves \<open>dist[0]\<close> at 10 and the whole state as it was.
\<close>

theorem pushpull_writeback_counterexample:
  "snd (0 :: GNode, 10 :: Dist) = dist (nodes (ex_state [10, 2]) 0) \<and>
   fst (snd (AsyncAlgoPP_scan ([[(1, 1)], []] ! 0) (ex_state [10, 2], 10, []))) = 3 \<and>
   dist (nodes (fst (AsyncAlgoPP_Process [[(1, 1)], []] (0, 10) (ex_state [10, 2], []))) 0) = 10 \<and>
   AsyncAlgoPP_Process [[(1, 1)], []] (0, 10) (ex_state [10, 2], []) = (ex_state [10, 2], [])"
  by (simp add: AsyncAlgoPP_Process_def AsyncAlgoPP_relaxEdge_eq ex_state_def ex_nodes_def)

text \<open>
  C6 (as amended): \<open>AsyncAlgoPP::relaxEdge\<close> on an edge to \<open>u\<close> with weight \<open>d\<close>: when the edge
  yields no push (\<open>sdata + d\<close> is not below \<open>dist[u]\<close>), the local copy becomes
  \<open>min (dist[u] + d) sdata\<close> and nothing else changes; when it yields a push, the
  local copy is unchanged.  The operator never writes the local copy back: when no
  out-edge of \<open>req.n\<close> leads back to \<open>req.n\<close>, the node data of \<open>req.n\<close> is
  the same after the operator as before.
\<close>

theorem pushpull_sdist:
  fixes st :: "('a SNode_scheme) State"
  shows
  "(\<not> sdata + d < dist (nodes st u) \<longrightarrow>
      AsyncAlgoPP_relaxEdge st sdata (u, d) pusher
        = (st, min (dist (nodes st u) + d) sdata, pusher)) \<and>
   (sdata + d < dist (nodes st u) \<longrightarrow>
      fst (snd (AsyncAlgoPP_relaxEdge st sdata (u, d) pusher)) = sdata \<and>
      snd (snd (AsyncAlgoPP_relaxEdge st sdata (u, d) pusher)) = pusher @ [(u, sdata + d)]) \<and>
   (fst req \<notin> fst ` set (g ! fst req) \<longrightarrow>
      nodes (fst (AsyncAlgoPP_Process g req (st, pusher))) (fst req) = nodes st (fst req))"
  by (simp add: AsyncAlgoPP_relaxEdge_eq AsyncAlgoPP_Process_def Let_def trackWork_def
        AsyncAlgoPP_scan_other)

theorem pushpull_sdist_witness:
  "\<not> (10 :: Dist) + 1 < dist (nodes (ex_state [10, 2]) 1) \<and>
   AsyncAlgoPP_relaxEdge (ex_state [10, 2]) 10 (1, 1) [] = (ex_state [10, 2], 3, []) \<and>
   (2 :: Dist) + 1 < dist (nodes (ex_state [10, 2]) 0) \<and>
   fst (snd (AsyncAlgoPP_relaxEdge (ex_state [10, 2]) 2 (0, 1) [])) = 2 \<and>
   snd (snd (AsyncAlgoPP_relaxEdge (ex_state [10, 2]) 2 (0, 1) [])) = [(0, 3)] \<and>
   fst (0 :: GNode, 10 :: Dist) \<notin> fst ` set ([[(1, 1 :: Dist)], []] ! fst (0 :: GNode, 10 :: Dist)) \<and>
   nodes (fst (AsyncAlgoPP_Process [[(1, 1)], []] (0, 10) (ex_state [10, 2], []))) 0
     = nodes (ex_state [10, 2]) 0"
  using pushpull_sdist [where sdata = 10 and d = 1 and st = "ex_state [10, 2]" and u = 1
           and req = "(0, 10)" and g = "[[(1, 1)], []]" and pusher = "[]"]
        pushpull_sdist [where sdata = 2 and d = 1 and st = "ex_state [10, 2]" and u = 0
           and req = "(0, 10)" and g = "[[(1, 1)], []]" and pusher = "[]"]
  by (simp add: ex_state_def ex_nodes_def)

section \<open>The verifier\<close>

lemma not_visited_iff: "not_visited st n = (dist (nodes st n) = DIST_INFINITY)"
  using DIST_INFINITY_max [of "dist (nodes st n)"] by (auto simp: not_visited_def)

lemma not_consistent_loop_iff:
  "not_consistent_loop st d es = (\<exists>e\<in>set es. d + snd e < dist (nodes st (fst e)))"
  by (induction es) (auto simp: Let_def)

lemma not_consistent_iff:
  "not_consistent g st n =
     (dist (nodes st n) \<noteq> DIST_INFINITY \<and>
      (\<exists>e\<in>set (g ! n). dist (nodes st n) + snd e < dist (nodes st (fst e))))"
  by (simp add: not_consistent_def not_consistent_loop_iff Let_def)

text \<open>
  C3: \<open>verify\<close> answers true exactly when \<open>dist[source] = 0\<close> and, for every node
  \<open>u\<close> of the graph with \<open>dist[u] \<noteq> DIST_INFINITY\<close> and every out-edge of \<open>u\<close>
  to \<open>v\<close> with weight \<open>w\<close>, \<open>dist[v] \<le> dist[u] + w\<close> (the 32-bit sum).  Unreached
  nodes only add the warning \<open>Unvisited k\<close>, with \<open>k\<close> their number, when there
  are any; they do not enter the answer.
\<close>

theorem verify_iff:
  fixes st :: "('a SNode_scheme) State"
  shows
  "(fst (verify g st source) \<longleftrightarrow>
      dist (nodes st source) = 0 \<and>
      (\<forall>u < length g. dist (nodes st u) \<noteq> DIST_INFINITY \<longrightarrow>
         (\<forall>e \<in> set (g ! u). dist (nodes st (fst e)) \<le> dist (nodes st u) + snd e))) \<and>
   (dist (nodes st source) = 0 \<longrightarrow>
      (\<forall>k. Unvisited k \<in> set (snd (verify g st source)) \<longleftrightarrow>
         k \<noteq> 0 \<and> k = length (filter (\<lambda>u. dist (nodes st u) = DIST_INFINITY) [0..<length g])))"
proof -
  have nv: "not_visited st = (\<lambda>u. dist (nodes st u) = DIST_INFINITY)"
    by (rule ext) (rule not_visited_iff)
  have cons: "(find (not_consistent g st) [0..<length g] = None) =
      (\<forall>u < length g. dist (nodes st u) \<noteq> DIST_INFINITY \<longrightarrow>
         (\<forall>e \<in> set (g ! u). dist (nodes st (fst e)) \<le> dist (nodes st u) + snd e))"
  proof -
    have "(find (not_consistent g st) [0..<length g] = None) =
        (\<forall>u < length g. \<not> not_consistent g st u)"
      by (auto simp: find_None_iff)
    also have "\<dots> = (\<forall>u < length g. dist (nodes st u) \<noteq> DIST_INFINITY \<longrightarrow>
         (\<forall>e \<in> set (g ! u). dist (nodes st (fst e)) \<le> dist (nodes st u) + snd e))"
      by (auto simp add: not_consistent_iff not_less)
    finally show ?thesis .
  qed
  show ?thesis
    unfolding verify_def Let_def nv cons [symmetric]
    by auto
qed

theorem verify_iff_witness:
  "fst (verify [[(1, 5)], [], []] (ex_state [0, 5, DIST_INFINITY]) 0) \<and>
   dist (nodes (ex_state [0, 5, DIST_INFINITY]) 2) = DIST_INFINITY \<and>
   Unvisited 1 \<in> set (snd (verify [[(1, 5)], [], []] (ex_state [0, 5, DIST_INFINITY]) 0)) \<and>
   \<not> fst (verify [[(1, 5)], [], []] (ex_state [0, 6, DIST_INFINITY]) 0)"
  using verify_iff [of "[[(1, 5)], [], []]" "ex_state [0, 5, DIST_INFINITY]" 0]
        verify_iff [of "[[(1, 5)], [], []]" "ex_state [0, 6, DIST_INFINITY]" 0]
  by (simp add: ex_state_def ex_nodes_def DIST_INFINITY_def upt_rec less_Suc_eq all_conj_distrib)

section \<open>The driver\<close>

lemma SerialAlgo_ex_graph:
  "SerialAlgo by_distance ex_graph 0 (foldl Initialize (ex_state [7, 7]) [0..<length ex_graph])
     = Some (ex_state [0, 5])"
  apply (simp add: SerialAlgo_def upt_rec Initialize_def ex_graph_def)
  apply (subst SerialAlgo_loop.simps, simp add: by_distance_def SerialAlgo_edge_def setDist_def ex_state_def ex_nodes_def DIST_INFINITY_def)+
  apply (auto simp: fun_eq_iff ex_nodes_def)
  done

lemma verify_ex_graph: "verify ex_graph (ex_state [0, 5]) 0 = (True, [MaxDist 5])"
  by (simp add: verify_def not_visited_def not_consistent_def ex_state_def ex_nodes_def
        DIST_INFINITY_def max_dist_def upt_rec ex_graph_def)

text \<open>
  A negative \<open>delta\<close> is not rejected: with the serial algorithm, start node 0 and
  report node 1 on a graph of two nodes, the run with \<open>delta = -1\<close> goes through
  and ends with a successful verification.
\<close>

theorem negative_delta_counterexample:
  "stepShift (ex_config 0 1 (- 1)) < 0 \<and>
   run Initialize (SerialAlgo by_distance) (ex_config 0 1 (- 1)) ex_graph (ex_state [7, 7])
     = Some (Returned, [NodeHasDistance 1 5, MaxDist 5, VerificationSuccessful], ex_state [0, 5])"
proof -
  have len: "length ex_graph = 2"
    by (simp add: ex_graph_def)
  have init: "initialize (ex_config 0 1 (- 1)) ex_graph = Inr (0, 1)"
    by (simp add: initialize_def ex_config_def len)
  have d: "dist (nodes (ex_state [0, 5]) (Suc 0)) = 5"
    by (simp add: ex_state_def ex_nodes_def)
  show ?thesis
    unfolding run_def init
    by (simp add: SerialAlgo_ex_graph verify_ex_graph d Let_def ex_config_def)
qed

text \<open>
  C7 (as amended): when \<open>startNode\<close> or \<open>reportNode\<close> is not below the number of nodes,
  \<open>initialize\<close> prints its message and aborts, so \<open>run\<close> ends with \<open>Aborted\<close>
  before \<open>Initialize\<close> and the algorithm have run: the state is the one it started
  with.  (Nothing checks \<open>delta\<close>.)
\<close>

theorem run_bad_node_aborts:
  fixes st :: "('a SNode_scheme) State"
  shows
  "unat (startNode cfg) \<ge> length g \<or> unat (reportNode cfg) \<ge> length g \<longrightarrow>
     initialize cfg g = Inl [FailedToSet (reportNode cfg) (startNode cfg)] \<and>
     run init algo cfg g st = Some (Aborted, [FailedToSet (reportNode cfg) (startNode cfg)], st)"
  by (simp add: run_def initialize_def)

theorem run_bad_node_aborts_witness:
  "unat (startNode (ex_config 2 0 10)) \<ge> length [[(1, 5 :: Dist)], []] \<and>
   run Initialize (SerialAlgo by_distance) (ex_config 2 0 10) [[(1, 5)], []] (ex_state [7, 7])
     = Some (Aborted, [FailedToSet 0 2], ex_state [7, 7]) \<and>
   unat (reportNode (ex_config 0 2 10)) \<ge> length [[(1, 5 :: Dist)], []] \<and>
   run Initialize (SerialAlgo by_distance) (ex_config 0 2 10) [[(1, 5)], []] (ex_state [7, 7])
     = Some (Aborted, [FailedToSet 2 0], ex_state [7, 7])"
  using run_bad_node_aborts [of "[[(1, 5)], []]" "ex_config 2 0 10" Initialize
           "SerialAlgo by_distance" "ex_state [7, 7]"]
        run_bad_node_aborts [of "[[(1, 5)], []]" "ex_config 0 2 10" Initialize
           "SerialAlgo by_distance" "ex_state [7, 7]"]
  by (simp add: ex_config_def)

section \<open>Initialization\<close>

lemma dist_foldl_Initialize:
  "dist (nodes (foldl Initialize st ns) v) =
     (if v \<in> set ns then DIST_INFINITY else dist (nodes st v))"
  by (induction ns arbitrary: st) (auto simp: Initialize_def setDist_def)


section \<open>Edge-list loading\<close>

lemma edges_in_range_Nil: "edges_in_range is_void tot 0 []"
  by (simp add: edges_in_range_def)

lemma edges_in_range_snoc:
  assumes "edges_in_range is_void tot n vec"
    and "ucast src < tot" and "ucast dst < tot"
  shows "edges_in_range is_void tot (Suc n) (vec @ layout is_void (src, dst, x))"
proof -
  from assms(1) obtain es where es: "vec = concat (map (layout is_void) es)" "length es = n"
    "\<forall>e \<in> set es. ucast (fst e) < tot \<and> ucast (fst (snd e)) < tot"
    by (auto simp: edges_in_range_def)
  have "vec @ layout is_void (src, dst, x) = concat (map (layout is_void) (es @ [(src, dst, x)]))"
    by (simp add: es(1))
  moreover have "length (es @ [(src, dst, x)]) = Suc n"
    by (simp add: es(2))
  moreover have "\<forall>e \<in> set (es @ [(src, dst, x)]).
      ucast (fst e) < tot \<and> ucast (fst (snd e)) < tot"
    using es(3) assms(2,3) by auto
  ultimately show ?thesis
    unfolding edges_in_range_def by blast
qed

lemma edges_in_range_length:
  "edges_in_range is_void tot n vec \<Longrightarrow> length vec = (if is_void then 2 else 3) * n"
proof -
  have "length (concat (map (layout is_void) es)) = (if is_void then 2 else 3) * length es" for es
    by (induction es) (auto simp: layout_def)
  then show "edges_in_range is_void tot n vec \<Longrightarrow> length vec = (if is_void then 2 else 3) * n"
    by (auto simp: edges_in_range_def)
qed

lemma loadEdges_loop_inv:
  assumes "loadEdges_loop io is_void endB tot s n vec = Some r"
  shows "edges_in_range is_void tot n vec \<longrightarrow>
     (\<forall>s' n' vec'. r = Inr (s', n', vec') \<longrightarrow> edges_in_range is_void tot n' vec')"
proof (rule loadEdges_loop.raw_induct
    [where P = "\<lambda>io is_void endB tot s n vec r. edges_in_range is_void tot n vec \<longrightarrow>
       (\<forall>s' n' vec'. r = Inr (s', n', vec') \<longrightarrow> edges_in_range is_void tot n' vec')",
     OF _ assms])
  fix f :: "'a ifstream \<Rightarrow> bool \<Rightarrow> 64 word \<Rightarrow> 64 word \<Rightarrow> 'a \<Rightarrow> nat \<Rightarrow> 32 word list
      \<Rightarrow> (galois_assert + 'a \<times> nat \<times> 32 word list) option"
  fix io is_void endB tot s n vec r
  assume IH: "\<And>io is_void endB tot s n vec r. f io is_void endB tot s n vec = Some r \<Longrightarrow>
      edges_in_range is_void tot n vec \<longrightarrow>
       (\<forall>s' n' vec'. r = Inr (s', n', vec') \<longrightarrow> edges_in_range is_void tot n' vec')"
  assume body: "(if (word_of_int (tellg io s + 1) :: 64 word) \<noteq> endB then
        (let r1 = read_uint32 io s; src = fst r1;
             r2 = read_uint32 io (snd r1); dst = fst r2 in
         if \<not> (ucast src < tot) then Some (Inl AssertFailed)
         else if \<not> (ucast dst < tot) then Some (Inl AssertFailed)
         else
           (let localEdges1 = vec @ [src, dst] in
            if \<not> is_void then
              (let r3 = read_uint32 io (snd r2); edgeData = fst r3 in
               f io is_void endB tot (snd r3) (n + 1) (localEdges1 @ [edgeData]))
            else
              f io is_void endB tot (snd r2) (n + 1) localEdges1))
      else Some (Inr (s, n, vec))) = Some r"
  show "edges_in_range is_void tot n vec \<longrightarrow>
       (\<forall>s' n' vec'. r = Inr (s', n', vec') \<longrightarrow> edges_in_range is_void tot n' vec')"
  proof (intro impI allI)
    fix s' n' vec'
    assume inv: "edges_in_range is_void tot n vec" and r: "r = Inr (s', n', vec')"
    show "edges_in_range is_void tot n' vec'"
    proof (cases "(word_of_int (tellg io s + 1) :: 64 word) \<noteq> endB")
      case False
      with body r inv show ?thesis by simp
    next
      case True
      define src where "src = fst (read_uint32 io s)"
      define s1 where "s1 = snd (read_uint32 io s)"
      define dst where "dst = fst (read_uint32 io s1)"
      define s2 where "s2 = snd (read_uint32 io s1)"
      have ok: "ucast src < tot" "ucast dst < tot"
        using body True r
        by (auto simp: Let_def src_def dst_def s1_def split: if_splits)
      show ?thesis
      proof (cases is_void)
        case True
        have "f io is_void endB tot s2 (n + 1) (vec @ [src, dst]) = Some r"
          using body \<open>word_of_int (tellg io s + 1) \<noteq> endB\<close> ok True
          by (simp add: Let_def src_def dst_def s1_def s2_def)
        moreover have "edges_in_range is_void tot (n + 1) (vec @ [src, dst])"
          using edges_in_range_snoc [OF inv ok, of 0] True by (simp add: layout_def)
        ultimately show ?thesis using IH r by blast
      next
        case False
        define x where "x = fst (read_uint32 io s2)"
        define s3 where "s3 = snd (read_uint32 io s2)"
        have "f io is_void endB tot s3 (n + 1) ((vec @ [src, dst]) @ [x]) = Some r"
          using body \<open>word_of_int (tellg io s + 1) \<noteq> endB\<close> ok False
          by (simp add: Let_def src_def dst_def s1_def s2_def x_def s3_def)
        moreover have "edges_in_range is_void tot (n + 1) ((vec @ [src, dst]) @ [x])"
          using edges_in_range_snoc [OF inv ok, of x] False by (simp add: layout_def)
        ultimately show ?thesis using IH r by blast
      qed
    qed
  qed
qed

text \<open>
  C10: when \<open>loadEdgesFromEdgeList\<close> returns a vector, the vector is the layout of the
  edges read, in order: \<open>src, dst\<close> for each when the edge data type is void,
  \<open>src, dst, data\<close> otherwise; every stored \<open>src\<close> and \<open>dst\<close> is below
  \<open>totalNumNodes\<close>; the length is 2 (or 3) times the number of edges read, which is
  the final \<open>localNumEdges\<close> of the loop; and \<open>getNumEdges\<close> gives that number back.
\<close>

theorem loadEdgesFromEdgeList_layout:
  "loadEdgesFromEdgeList io is_void edgeListFile localStartByte localEndByte totalNumNodes
      = Some (Inr (s', vec)) \<longrightarrow>
   (\<exists>es. loadEdges_loop io is_void localEndByte totalNumNodes
            (seekg io edgeListFile localStartByte) 0 [] = Some (Inr (s', length es, vec)) \<and>
         vec = concat (map (layout is_void) es) \<and>
         (\<forall>e \<in> set es. ucast (fst e) < totalNumNodes \<and> ucast (fst (snd e)) < totalNumNodes) \<and>
         length vec = (if is_void then 2 else 3) * length es \<and>
         getNumEdges is_void vec = length es)"
proof
  assume a: "loadEdgesFromEdgeList io is_void edgeListFile localStartByte localEndByte
      totalNumNodes = Some (Inr (s', vec))"
  then obtain n where loop: "loadEdges_loop io is_void localEndByte totalNumNodes
            (seekg io edgeListFile localStartByte) 0 [] = Some (Inr (s', n, vec))"
    by (auto simp: loadEdgesFromEdgeList_def split: option.splits sum.splits if_splits)
  have "edges_in_range is_void totalNumNodes n vec"
    using loadEdges_loop_inv [OF loop] edges_in_range_Nil by blast
  then obtain es where es: "vec = concat (map (layout is_void) es)" "length es = n"
    "\<forall>e \<in> set es. ucast (fst e) < totalNumNodes \<and> ucast (fst (snd e)) < totalNumNodes"
    by (auto simp: edges_in_range_def)
  have len: "length vec = (if is_void then 2 else 3) * length es"
    using edges_in_range_length [OF \<open>edges_in_range is_void totalNumNodes n vec\<close>] es(2)
    by simp
  have "getNumEdges is_void vec = length es"
    by (simp add: getNumEdges_def len)
  with loop es len show "\<exists>es. loadEdges_loop io is_void localEndByte totalNumNodes
            (seekg io edgeListFile localStartByte) 0 [] = Some (Inr (s', length es, vec)) \<and>
         vec = concat (map (layout is_void) es) \<and>
         (\<forall>e \<in> set es. ucast (fst e) < totalNumNodes \<and> ucast (fst (snd e)) < totalNumNodes) \<and>
         length vec = (if is_void then 2 else 3) * length es \<and>
         getNumEdges is_void vec = length es"
    by blast
qed

lemma loadEdges_ex:
  "loadEdgesFromEdgeList ex_ifstream True (0, [0, 1, 1, 0]) 0 8 2
     = Some (Inr ((4, []), [0, 1, 1, 0]))"
  apply (simp add: loadEdgesFromEdgeList_def)
  apply (subst loadEdges_loop.simps, simp add: ex_ifstream_def)+
  done

theorem loadEdgesFromEdgeList_layout_witness:
  "loadEdgesFromEdgeList ex_ifstream True (0, [0, 1, 1, 0]) 0 8 2
     = Some (Inr ((4, []), [0, 1, 1, 0])) \<and>
   (\<exists>es. loadEdges_loop ex_ifstream True 8 2 (seekg ex_ifstream (0, [0, 1, 1, 0]) 0) 0 []
            = Some (Inr ((4, []), length es, [0, 1, 1, 0])) \<and>
         [0, 1, 1, 0] = concat (map (layout True) es) \<and>
         length [0 :: 32 word, 1, 1, 0] = 2 * length es \<and>
         getNumEdges True [0, 1, 1, 0] = length es)"
  using loadEdgesFromEdgeList_layout [of ex_ifstream True "(0, [0, 1, 1, 0])" 0 8 2 "(4, [])"
      "[0, 1, 1, 0]"] loadEdges_ex
  by auto

section \<open>The parallel runs and SerialAlgo\<close>

lemma jpath_mono:
  assumes "jpath g src D v L vs" and "\<And>x. D' x \<le> D x"
  shows "jpath g src D' v L vs"
  using assms(1)
proof (induction rule: jpath.induct)
  case base
  have "D' src \<le> 0" using assms(2) [of src] base by simp
  then have "D' src = 0" by simp
  then show ?case by (rule jpath.base)
next
  case (step v L vs u d)
  have "unat (D' u) \<le> unat (D u)"
    using assms(2) [of u] by (simp add: word_le_nat_alt)
  with step show ?case
    by (intro jpath.step) auto
qed

lemma jpath_bound:
  "jpath g src D v L vs \<Longrightarrow> x \<in> set vs \<Longrightarrow> unat (D x) \<le> L"
  by (induction rule: jpath.induct) auto

lemma jpath_in_graph:
  "jpath g src D v L vs \<Longrightarrow> src < length g \<Longrightarrow> wf_graph g \<Longrightarrow> v < length g"
  by (induction rule: jpath.induct) (force simp: wf_graph_def)+

lemma unat_Dist_add_le: "unat (a + b :: Dist) \<le> unat a + unat b"
  by (simp add: unat_Dist_add)

lemma unat_INF: "unat DIST_INFINITY = 2 ^ 32 - 1"
  by (simp add: DIST_INFINITY_def)

lemma unat_le_INF: "unat (d :: Dist) \<le> 2 ^ 32 - 1"
  using DIST_INFINITY_max [of d] by (simp add: word_le_nat_alt unat_INF)

lemma relaxed_below_path:
  assumes "jpath g src D v L vs" and "D' src = 0" and "relaxed g D'"
  shows "unat (D' v) \<le> L"
  using assms(1)
proof (induction rule: jpath.induct)
  case base
  then show ?case using assms(2) by simp
next
  case (step v L vs u d)
  show ?case
  proof (cases "D' v = DIST_INFINITY")
    case True
    with step.IH have "2 ^ 32 - 1 \<le> L" by (simp add: unat_INF)
    with unat_le_INF [of "D' u"] show ?thesis by linarith
  next
    case False
    with assms(3) step.hyps have "D' u \<le> D' v + d"
      by (force simp: relaxed_def)
    then have "unat (D' u) \<le> unat (D' v + d)" by (simp add: word_le_nat_alt)
    also have "\<dots> \<le> unat (D' v) + unat d" by (rule unat_Dist_add_le)
    finally show ?thesis using step.IH by linarith
  qed
qed

lemma solution_unique:
  assumes "D1 src = 0" "relaxed g D1" "justified g src D1"
    and "D2 src = 0" "relaxed g D2" "justified g src D2"
    and "v < length g"
  shows "D1 v = D2 v"
proof -
  have le: "unat (B v) \<le> unat (A v)"
    if "justified g src A" "B src = 0" "relaxed g B" for A B :: "GNode \<Rightarrow> Dist"
  proof (cases "A v = DIST_INFINITY")
    case True
    then show ?thesis using unat_le_INF [of "B v"] by (simp add: unat_INF)
  next
    case False
    with that(1) assms(7) obtain vs where "jpath g src A v (unat (A v)) vs"
      by (auto simp: justified_def)
    then show ?thesis using that(2,3) by (rule relaxed_below_path)
  qed
  have "unat (D1 v) = unat (D2 v)"
    using le [of D1 D2] le [of D2 D1] assms by simp
  then show ?thesis by (rule word_unat_eq_iff [THEN iffD2])
qed

lemma justified_relax:
  assumes J: "justified g src D" and P: "proposed g src D u nd" and lt: "nd < D u"
  shows "justified g src (D(u := nd))"
proof -
  let ?D' = "D(u := nd)"
  have le: "\<And>x. ?D' x \<le> D x" using lt by (simp add: less_imp_le)
  have ju: "\<exists>vs. jpath g src ?D' u (unat nd) vs"
    using P unfolding proposed_def
  proof (elim disjE conjE exE)
    assume "u = src" "nd = 0"
    then have "jpath g src ?D' u (unat nd) [u]"
      using jpath.base [of ?D' src g] by simp
    then show ?thesis ..
  next
    fix v L vs d
    assume p: "jpath g src D v L vs" and v: "v < length g" and e: "(u, d) \<in> set (g ! v)"
      and n: "unat nd = L + unat d"
    have "u \<notin> set vs"
    proof
      assume "u \<in> set vs"
      with p have "unat (D u) \<le> L" by (rule jpath_bound)
      moreover have "unat nd < unat (D u)" using lt by (simp add: word_less_nat_alt)
      ultimately show False using n by simp
    qed
    moreover have "jpath g src ?D' v L vs" using p le by (rule jpath_mono)
    moreover have "unat (?D' u) \<le> L + unat d" using n by simp
    ultimately have "jpath g src ?D' u (L + unat d) (u # vs)"
      using v e by (intro jpath.step)
    then show ?thesis using n by auto
  qed
  show ?thesis
    unfolding justified_def
  proof (intro allI impI)
    fix x assume x: "x < length g" "?D' x \<noteq> DIST_INFINITY"
    show "\<exists>vs. jpath g src ?D' x (unat (?D' x)) vs"
    proof (cases "x = u")
      case True
      then show ?thesis using ju by simp
    next
      case False
      with x J obtain vs where "jpath g src D x (unat (D x)) vs"
        by (auto simp: justified_def)
      then have "jpath g src ?D' x (unat (D x)) vs" using le by (rule jpath_mono)
      then show ?thesis using False by auto
    qed
  qed
qed

lemma proposed_mono:
  assumes "proposed g src D u nd" and "\<And>x. D' x \<le> D x"
  shows "proposed g src D' u nd"
  using assms jpath_mono [where D = D and D' = D']
  unfolding proposed_def by blast

lemma proposed_read:
  assumes J: "justified g src D" and H: "no_overflow g src"
    and v: "v < length g" "D v \<noteq> DIST_INFINITY" and e: "(u, d) \<in> set (g ! v)"
  shows "proposed g src D u (D v + d)" and "unat (D v + d) = unat (D v) + unat d"
proof -
  from J v obtain vs where p: "jpath g src D v (unat (D v)) vs"
    by (auto simp: justified_def)
  have "jpath g src (\<lambda>_. 0) v (unat (D v)) vs"
    using p by (rule jpath_mono) simp
  with H v e have "unat (D v) + unat d < 2 ^ 32"
    unfolding no_overflow_def by blast
  then show n: "unat (D v + d) = unat (D v) + unat d"
    by (simp add: unat_Dist_add)
  show "proposed g src D u (D v + d)"
    unfolding proposed_def using p v e n by blast
qed

lemma dists_setDist [simp]: "dists (setDist st v d) = (dists st)(v := d)"
  by (rule ext) (simp add: dists_def setDist_def)

lemma set_insert_subset: "set (set_insert lt x S) \<subseteq> insert x (set S)"
  by (induction S) auto

lemma set_insert_keeps: "set S \<subseteq> set (set_insert lt x S)"
  by (induction S) auto

lemma set_insert_member: "total_order lt \<Longrightarrow> x \<in> set (set_insert lt x S)"
  by (induction S) (auto simp: total_order_def)

lemma serial_edges_keeps:
  "set S \<subseteq> set (foldl (SerialAlgo_edge lt st req) S es)"
proof (induction es arbitrary: S)
  case Nil
  then show ?case by simp
next
  case (Cons e es)
  have "set S \<subseteq> set (SerialAlgo_edge lt st req S e)"
    using set_insert_keeps [of S lt] by (auto simp: SerialAlgo_edge_def Let_def)
  with Cons.IH [of "SerialAlgo_edge lt st req S e"] show ?case by auto
qed

lemma serial_edges_subset:
  "q \<in> set (foldl (SerialAlgo_edge lt st req) S es)
     \<Longrightarrow> q \<in> set S \<or> (\<exists>e \<in> set es. q = (fst e, snd req + snd e))"
proof (induction es arbitrary: S)
  case Nil
  then show ?case by simp
next
  case (Cons e es)
  from Cons.IH [of "SerialAlgo_edge lt st req S e"] Cons.prems
  have "q \<in> set (SerialAlgo_edge lt st req S e) \<or> (\<exists>e \<in> set es. q = (fst e, snd req + snd e))"
    by simp
  moreover have "set (SerialAlgo_edge lt st req S e) \<subseteq> insert (fst e, snd req + snd e) (set S)"
    using set_insert_subset [of lt "(fst e, snd req + snd e)" S]
    by (auto simp: SerialAlgo_edge_def Let_def)
  ultimately show ?case by auto
qed

lemma serial_edges_member:
  assumes "total_order lt" "e \<in> set es" "snd req + snd e < dists st (fst e)"
  shows "(fst e, snd req + snd e) \<in> set (foldl (SerialAlgo_edge lt st req) S es)"
  using assms(2)
proof (induction es arbitrary: S)
  case Nil
  then show ?case by simp
next
  case (Cons a es)
  show ?case
  proof (cases "e = a")
    case True
    have "(fst e, snd req + snd e) \<in> set (SerialAlgo_edge lt st req S a)"
      using True assms(3) set_insert_member [OF assms(1)]
      by (simp add: SerialAlgo_edge_def Let_def dists_def)
    then show ?thesis
      using serial_edges_keeps [of "SerialAlgo_edge lt st req S a" lt st req es] by auto
  next
    case False
    with Cons.prems have "e \<in> set es" by simp
    then show ?thesis using Cons.IH by simp
  qed
qed

lemma serial_inv_skip:
  assumes inv: "serial_inv g src D (r # S)" and nl: "\<not> snd r < D (fst r)"
  shows "serial_inv g src D S"
proof -
  have le: "D (fst r) \<le> snd r" using nl by (simp add: not_less)
  have c: "D (fst e) \<le> D v + snd e \<or> (fst e, D v + snd e) \<in> set S"
    if "v < length g" "D v \<noteq> DIST_INFINITY" "e \<in> set (g ! v)" for v e
  proof -
    from inv that have "D (fst e) \<le> D v + snd e \<or> (fst e, D v + snd e) \<in> set (r # S)"
      unfolding serial_inv_def by blast
    then show ?thesis using le by (cases r) auto
  qed
  have d: "D src = 0 \<or> (src, 0) \<in> set S"
  proof -
    from inv have "D src = 0 \<or> (src, 0) \<in> set (r # S)"
      unfolding serial_inv_def by blast
    then show ?thesis using le by (cases r) auto
  qed
  have a: "\<forall>q \<in> set S. fst q < length g \<and> proposed g src D (fst q) (snd q)"
    using inv unfolding serial_inv_def by simp
  have J: "justified g src D"
    using inv unfolding serial_inv_def by blast
  show ?thesis
    unfolding serial_inv_def
    using a J c d by blast
qed

lemma serial_inv_relax:
  assumes wf: "wf_graph g" and H: "no_overflow g src" and tot: "total_order lt"
    and inv: "serial_inv g src (dists st) (r # S)" and lt: "snd r < dists st (fst r)"
  shows "serial_inv g src (dists (setDist st (fst r) (snd r)))
           (foldl (SerialAlgo_edge lt (setDist st (fst r) (snd r)) r) S (g ! fst r))"
proof -
  obtain v w where r: "r = (v, w)" by (cases r)
  let ?D = "dists st"
  let ?st1 = "setDist st v w"
  let ?D1 = "(dists st)(v := w)"
  let ?S2 = "foldl (SerialAlgo_edge lt ?st1 r) S (g ! v)"
  have D1: "dists ?st1 = ?D1" by simp
  have v: "v < length g" and pv: "proposed g src ?D v w"
    using inv r unfolding serial_inv_def by auto
  have J: "justified g src ?D" using inv unfolding serial_inv_def by blast
  have le: "\<And>x. ?D1 x \<le> ?D x" using lt r by (simp add: less_imp_le)
  have J1: "justified g src ?D1"
    using J pv lt r by (intro justified_relax) auto
  have fin: "?D1 v \<noteq> DIST_INFINITY"
    using lt r DIST_INFINITY_max [of "?D v"] by auto
  have keeps: "set S \<subseteq> set ?S2" by (rule serial_edges_keeps)
  have a: "fst q < length g \<and> proposed g src ?D1 (fst q) (snd q)" if q: "q \<in> set ?S2" for q
  proof -
    from serial_edges_subset [OF q]
    consider "q \<in> set S" | e where "e \<in> set (g ! v)" "q = (fst e, w + snd e)"
      using r by auto
    then show ?thesis
    proof cases
      case 1
      with inv have "fst q < length g \<and> proposed g src ?D (fst q) (snd q)"
        unfolding serial_inv_def by auto
      moreover have "proposed g src ?D1 (fst q) (snd q)"
        if "proposed g src ?D (fst q) (snd q)"
        using that by (rule proposed_mono) (rule le)
      ultimately show ?thesis by blast
    next
      case 2
      have "fst e < length g" using wf v 2(1) by (auto simp: wf_graph_def)
      moreover have "proposed g src ?D1 (fst e) (?D1 v + snd e)"
        using J1 H v fin 2(1) by (intro proposed_read(1)) auto
      ultimately show ?thesis using 2(2) by simp
    qed
  qed
  have c: "?D1 (fst e) \<le> ?D1 x + snd e \<or> (fst e, ?D1 x + snd e) \<in> set ?S2"
    if x: "x < length g" "?D1 x \<noteq> DIST_INFINITY" "e \<in> set (g ! x)" for x e
  proof (cases "x = v")
    case True
    show ?thesis
    proof (cases "w + snd e < ?D1 (fst e)")
      case True
      then have "(fst e, snd r + snd e) \<in> set ?S2"
        using serial_edges_member [OF tot, of e "g ! v" r ?st1 S] x(3) \<open>x = v\<close> r
        by simp
      then show ?thesis using \<open>x = v\<close> r by simp
    next
      case False
      then show ?thesis using \<open>x = v\<close> by (simp add: not_less)
    qed
  next
    case False
    then have Dx: "?D1 x = ?D x" by simp
    with inv x have "?D (fst e) \<le> ?D x + snd e \<or> (fst e, ?D x + snd e) \<in> set (r # S)"
      unfolding serial_inv_def by auto
    then consider "?D (fst e) \<le> ?D x + snd e" | "(fst e, ?D x + snd e) = (v, w)"
      | "(fst e, ?D x + snd e) \<in> set S"
      using r by auto
    then show ?thesis
    proof cases
      case 1
      with le [of "fst e"] have "?D1 (fst e) \<le> ?D x + snd e" by (rule order_trans)
      then show ?thesis using Dx by simp
    next
      case 2
      then show ?thesis using Dx by auto
    next
      case 3
      then show ?thesis using keeps Dx by auto
    qed
  qed
  have d: "?D1 src = 0 \<or> (src, 0) \<in> set ?S2"
  proof -
    from inv have "?D src = 0 \<or> (src, 0) \<in> set (r # S)"
      unfolding serial_inv_def by blast
    then consider "?D src = 0" | "(src, 0) = (v, w)" | "(src, 0) \<in> set S"
      using r by auto
    then show ?thesis
    proof cases
      case 1
      with lt r have "v \<noteq> src" by auto
      with 1 show ?thesis by simp
    next
      case 2
      then show ?thesis by auto
    next
      case 3
      then show ?thesis using keeps by auto
    qed
  qed
  have "serial_inv g src ?D1 ?S2"
    unfolding serial_inv_def
    using a J1 c d by blast
  then show ?thesis
    by (simp only: D1 r fst_conv snd_conv)
qed

lemma serial_loop_total:
  assumes wf: "wf_graph g" and H: "no_overflow g src" and tot: "total_order lt"
  shows "serial_inv g src (dists st) S \<Longrightarrow>
    \<exists>st' c'. SerialAlgo_loop lt g st S c = Some (st', c') \<and>
       dists st' src = 0 \<and> relaxed g (dists st') \<and> justified g src (dists st')"
proof (induction "\<Sum>v < length g. unat (dists st v)" arbitrary: st S c rule: less_induct)
  case less
  show ?case using less.prems
  proof (induction S arbitrary: c)
    case Nil
    have "SerialAlgo_loop lt g st [] c = Some (st, c)"
      by (subst SerialAlgo_loop.simps) simp
    moreover have "dists st src = 0" "relaxed g (dists st)" "justified g src (dists st)"
      using Nil unfolding serial_inv_def relaxed_def by auto
    ultimately show ?case by blast
  next
    case (Cons r S)
    show ?case
    proof (cases "snd r < dists st (fst r)")
      case False
      have "serial_inv g src (dists st) S"
        using Cons.prems False by (rule serial_inv_skip)
      from Cons.IH [OF this, of "c + 1"] obtain st' c' where
        "SerialAlgo_loop lt g st S (c + 1) = Some (st', c')"
        "dists st' src = 0" "relaxed g (dists st')" "justified g src (dists st')"
        by blast
      moreover have "SerialAlgo_loop lt g st (r # S) c = SerialAlgo_loop lt g st S (c + 1)"
        using False by (subst SerialAlgo_loop.simps) (simp add: dists_def)
      ultimately show ?thesis by auto
    next
      case True
      let ?st1 = "setDist st (fst r) (snd r)"
      let ?S2 = "foldl (SerialAlgo_edge lt ?st1 r) S (g ! fst r)"
      have inv1: "serial_inv g src (dists ?st1) ?S2"
        using wf H tot Cons.prems True by (rule serial_inv_relax)
      have v: "fst r < length g"
        using Cons.prems unfolding serial_inv_def by simp
      have "(\<Sum>v < length g. unat (dists ?st1 v)) < (\<Sum>v < length g. unat (dists st v))"
      proof (rule sum_strict_mono_ex1)
        show "finite {..<length g}" by simp
        show "\<forall>x \<in> {..<length g}. unat (dists ?st1 x) \<le> unat (dists st x)"
          using True by (auto simp: word_less_nat_alt)
        show "\<exists>a \<in> {..<length g}. unat (dists ?st1 a) < unat (dists st a)"
          using True v by (auto simp: word_less_nat_alt intro!: bexI [of _ "fst r"])
      qed
      from less.hyps [OF this inv1, of "c + 1"] obtain st' c' where
        "SerialAlgo_loop lt g ?st1 ?S2 (c + 1) = Some (st', c')"
        "dists st' src = 0" "relaxed g (dists st')" "justified g src (dists st')"
        by blast
      moreover have "SerialAlgo_loop lt g st (r # S) c = SerialAlgo_loop lt g ?st1 ?S2 (c + 1)"
        using True by (subst SerialAlgo_loop.simps) (simp add: dists_def Let_def)
      ultimately show ?thesis by auto
    qed
  qed
qed

lemma dists_do_all_Initialize:
  "v < length g \<Longrightarrow> dists (do_all_Initialize g st) v = DIST_INFINITY"
  by (simp add: dists_def do_all_Initialize_def dist_foldl_Initialize)

lemma SerialAlgo_solution:
  assumes wf: "wf_graph g" and src: "src < length g" and H: "no_overflow g src"
    and tot: "total_order lt"
  shows "\<exists>st'. SerialAlgo lt g src (do_all_Initialize g st) = Some st' \<and>
       dists st' src = 0 \<and> relaxed g (dists st') \<and> justified g src (dists st')"
proof -
  let ?st0 = "do_all_Initialize g st"
  have "proposed g src (dists ?st0) src 0"
    by (simp add: proposed_def)
  moreover have "justified g src (dists ?st0)"
    by (simp add: justified_def dists_do_all_Initialize)
  ultimately have "serial_inv g src (dists ?st0) [(src, 0)]"
    using src by (simp add: serial_inv_def dists_do_all_Initialize)
  from serial_loop_total [OF wf H tot this, of 0] show ?thesis
    by (auto simp: SerialAlgo_def)
qed

lemma dists_empty_work [simp]: "dists (empty_work st) = dists st"
  by (rule ext) (simp add: dists_def empty_work_def)

lemma thread_ok_mono:
  assumes "thread_ok g src D t" and "\<And>x. D' x \<le> D x" and "\<And>x. D x \<noteq> DIST_INFINITY \<Longrightarrow> D' x \<noteq> DIST_INFINITY"
  shows "thread_ok g src D' t"
  using assms proposed_mono [where D = D and D' = D' and g = g and src = src]
  by (cases t) auto

text \<open>A step that leaves the distances and the work list alone.\<close>

lemma async_inv_replace:
  assumes inv: "async_inv g src D wl (add_mset t ts)"
    and ok: "\<And>t'. t' \<in> set ts' \<Longrightarrow> thread_ok g src D t'"
    and cov: "\<And>v e. v < length g \<Longrightarrow> e \<in> set (g ! v) \<Longrightarrow> covers t v (D v) e \<Longrightarrow>
        D (fst e) \<le> D v + snd e \<or> (\<exists>t' \<in> set ts'. covers t' v (D v) e)"
  shows "async_inv g src D wl (ts + mset ts')"
proof -
  have c: "D (fst e) \<le> D v + snd e \<or> (v, D v) \<in># wl \<or> (\<exists>t \<in># ts + mset ts'. covers t v (D v) e)"
    if v: "v < length g" "D v \<noteq> DIST_INFINITY" "e \<in> set (g ! v)" for v e
  proof -
    from inv v have "D (fst e) \<le> D v + snd e \<or> (v, D v) \<in># wl \<or>
        (\<exists>t' \<in># add_mset t ts. covers t' v (D v) e)"
      unfolding async_inv_def by blast
    then consider "D (fst e) \<le> D v + snd e" | "(v, D v) \<in># wl"
      | "covers t v (D v) e" | t' where "t' \<in># ts" "covers t' v (D v) e"
      by auto
    then show ?thesis
    proof cases
      case 3
      from cov [OF v(1) v(3) this] show ?thesis by auto
    qed auto
  qed
  have o: "\<forall>t' \<in># ts + mset ts'. thread_ok g src D t'"
    using inv ok unfolding async_inv_def by auto
  show ?thesis
    unfolding async_inv_def
    using inv c o unfolding async_inv_def by blast
qed

lemma async_inv_pop:
  assumes inv: "async_inv g src D (add_mset r wl) ts"
  shows "async_inv g src D wl (add_mset (Start r) ts)"
proof -
  have c: "D (fst e) \<le> D v + snd e \<or> (v, D v) \<in># wl \<or>
      (\<exists>t \<in># add_mset (Start r) ts. covers t v (D v) e)"
    if v: "v < length g" "D v \<noteq> DIST_INFINITY" "e \<in> set (g ! v)" for v e
  proof -
    from inv v have "D (fst e) \<le> D v + snd e \<or> (v, D v) \<in># add_mset r wl \<or>
        (\<exists>t' \<in># ts. covers t' v (D v) e)"
      unfolding async_inv_def by blast
    then show ?thesis by auto
  qed
  have o: "\<forall>t' \<in># add_mset (Start r) ts. thread_ok g src D t'"
    using inv unfolding async_inv_def by auto
  have w: "\<forall>r \<in># wl. fst r < length g \<and> D (fst r) \<noteq> DIST_INFINITY"
    using inv unfolding async_inv_def by auto
  show ?thesis
    unfolding async_inv_def
    using inv c o w unfolding async_inv_def by blast
qed

lemma dists_bad_work [simp]: "dists (bad_work od st) = dists st"
  by (rule ext) (simp add: dists_def bad_work_def)

text \<open>The store of a \<open>Write\<close> thread.\<close>

lemma async_inv_write:
  assumes wf: "wf_graph g"
    and inv: "async_inv g src D wl (add_mset (Write r e es nd od) ts)"
    and lt: "nd < D (fst e)"
  shows "async_inv g src (D(fst e := nd)) wl (add_mset (Push r e es nd) ts)"
proof -
  let ?u = "fst e"
  let ?D' = "D(?u := nd)"
  have ok: "thread_ok g src D (Write r e es nd od)"
    using inv unfolding async_inv_def by simp
  have le: "\<And>x. ?D' x \<le> D x" using lt by (simp add: less_imp_le)
  have fin: "\<And>x. D x \<noteq> DIST_INFINITY \<Longrightarrow> ?D' x \<noteq> DIST_INFINITY"
    using lt DIST_INFINITY_max [of "D ?u"] by auto
  have u: "?u < length g"
    using ok wf by (auto simp: wf_graph_def)
  have ufin: "?D' ?u \<noteq> DIST_INFINITY"
    using lt DIST_INFINITY_max [of "D ?u"] by auto
  have i1: "?D' src = 0"
  proof -
    have "D src = 0" using inv unfolding async_inv_def by blast
    with lt have "?u \<noteq> src" by auto
    with \<open>D src = 0\<close> show ?thesis by simp
  qed
  have i2: "justified g src ?D'"
    using inv ok lt unfolding async_inv_def by (intro justified_relax) auto
  have i3: "\<forall>q \<in># wl. fst q < length g \<and> ?D' (fst q) \<noteq> DIST_INFINITY"
  proof
    fix q assume "q \<in># wl"
    with inv have "fst q < length g \<and> D (fst q) \<noteq> DIST_INFINITY"
      unfolding async_inv_def by auto
    then show "fst q < length g \<and> ?D' (fst q) \<noteq> DIST_INFINITY" using fin by blast
  qed
  have i4: "\<forall>t \<in># add_mset (Push r e es nd) ts. thread_ok g src ?D' t"
  proof
    fix t assume "t \<in># add_mset (Push r e es nd) ts"
    then consider "t = Push r e es nd" | "t \<in># ts" by auto
    then show "thread_ok g src ?D' t"
    proof cases
      case 1
      then show ?thesis using ok fin [of "fst r"] u ufin by auto
    next
      case 2
      with inv have "thread_ok g src D t" unfolding async_inv_def by auto
      then show ?thesis using le fin by (rule thread_ok_mono)
    qed
  qed
  have i5: "?D' (fst e') \<le> ?D' v + snd e' \<or> (v, ?D' v) \<in># wl \<or>
      (\<exists>t \<in># add_mset (Push r e es nd) ts. covers t v (?D' v) e')"
    if v: "v < length g" "?D' v \<noteq> DIST_INFINITY" "e' \<in> set (g ! v)" for v e'
  proof (cases "v = ?u")
    case True
    then show ?thesis by simp
  next
    case False
    then have Dv: "?D' v = D v" by simp
    from inv v Dv have "D (fst e') \<le> D v + snd e' \<or> (v, D v) \<in># wl \<or>
        (\<exists>t \<in># add_mset (Write r e es nd od) ts. covers t v (D v) e')"
      unfolding async_inv_def by auto
    then consider "D (fst e') \<le> D v + snd e'" | "(v, D v) \<in># wl"
      | "covers (Write r e es nd od) v (D v) e'" | t where "t \<in># ts" "covers t v (D v) e'"
      by auto
    then show ?thesis
    proof cases
      case 1
      with le [of "fst e'"] have "?D' (fst e') \<le> D v + snd e'" by (rule order_trans)
      then show ?thesis using Dv by simp
    next
      case 2
      then show ?thesis using Dv by simp
    next
      case 3
      then consider "r = (v, D v)" "e' \<in> set es" | "r = (v, D v)" "e' = e" "nd = D v + snd e'"
        by auto
      then show ?thesis
      proof cases
        case 1
        then have "covers (Push r e es nd) v (?D' v) e'" using Dv by simp
        then show ?thesis by auto
      next
        case 2
        then have "?D' (fst e') = ?D' v + snd e'" using Dv by simp
        then show ?thesis by simp
      qed
    next
      case 4
      then show ?thesis using Dv by auto
    qed
  qed
  show ?thesis
    unfolding async_inv_def
    using i1 i2 i3 i4 i5 by blast
qed

text \<open>The push that follows the store.\<close>

lemma async_inv_push:
  assumes inv: "async_inv g src D wl (add_mset (Push r e es nd) ts)"
  shows "async_inv g src D (add_mset (fst e, nd) wl) (add_mset (Scan r es) ts)"
proof -
  have ok: "thread_ok g src D (Push r e es nd)"
    using inv unfolding async_inv_def by simp
  have c: "D (fst e') \<le> D v + snd e' \<or> (v, D v) \<in># add_mset (fst e, nd) wl \<or>
      (\<exists>t \<in># add_mset (Scan r es) ts. covers t v (D v) e')"
    if v: "v < length g" "D v \<noteq> DIST_INFINITY" "e' \<in> set (g ! v)" for v e'
  proof -
    from inv v have "D (fst e') \<le> D v + snd e' \<or> (v, D v) \<in># wl \<or>
        (\<exists>t' \<in># add_mset (Push r e es nd) ts. covers t' v (D v) e')"
      unfolding async_inv_def by blast
    then consider "D (fst e') \<le> D v + snd e'" | "(v, D v) \<in># wl"
      | "covers (Push r e es nd) v (D v) e'" | t' where "t' \<in># ts" "covers t' v (D v) e'"
      by auto
    then show ?thesis
    proof cases
      case 3
      then consider "r = (v, D v)" "e' \<in> set es" | "(fst e, nd) = (v, D v)" by auto
      then show ?thesis
      proof cases
        case 1
        then have "covers (Scan r es) v (D v) e'" by simp
        then show ?thesis by auto
      next
        case 2
        then show ?thesis by simp
      qed
    qed auto
  qed
  have o: "\<forall>t' \<in># add_mset (Scan r es) ts. thread_ok g src D t'"
    using inv ok unfolding async_inv_def by auto
  have w: "\<forall>q \<in># add_mset (fst e, nd) wl. fst q < length g \<and> D (fst q) \<noteq> DIST_INFINITY"
    using inv ok unfolding async_inv_def by auto
  show ?thesis
    unfolding async_inv_def
    using inv c o w unfolding async_inv_def by blast
qed

text \<open>A \<open>Relax\<close> thread that reads a distance it cannot improve.\<close>

lemma async_inv_relax_no:
  assumes inv: "async_inv g src D wl (add_mset (Relax r e es nd) ts)"
    and nlt: "\<not> nd < D (fst e)"
  shows "async_inv g src D wl (add_mset (Scan r es) ts)"
proof -
  have ok: "thread_ok g src D (Relax r e es nd)"
    using inv unfolding async_inv_def by simp
  have "async_inv g src D wl (ts + mset [Scan r es])"
  proof (rule async_inv_replace [OF inv])
    fix t' assume "t' \<in> set [Scan r es]"
    then show "thread_ok g src D t'" using ok by auto
  next
    fix v e'
    assume "covers (Relax r e es nd) v (D v) e'"
    then consider "r = (v, D v)" "e' \<in> set es" | "r = (v, D v)" "e' = e" "nd = D v + snd e'"
      by auto
    then show "D (fst e') \<le> D v + snd e' \<or> (\<exists>t' \<in> set [Scan r es]. covers t' v (D v) e')"
    proof cases
      case 1
      then show ?thesis by simp
    next
      case 2
      then show ?thesis using nlt by (simp add: not_less)
    qed
  qed
  then show ?thesis by simp
qed

text \<open>Between \<open>Relax\<close> and \<open>Write\<close> nothing changes but the place of the thread.\<close>

lemma async_inv_relax_write:
  assumes inv: "async_inv g src D wl (add_mset (Relax r e es nd) ts)" and lt: "nd < od"
  shows "async_inv g src D wl (add_mset (Write r e es nd od) ts)"
proof -
  have ok: "thread_ok g src D (Relax r e es nd)"
    using inv unfolding async_inv_def by simp
  have "async_inv g src D wl (ts + mset [Write r e es nd od])"
  proof (rule async_inv_replace [OF inv])
    fix t' assume "t' \<in> set [Write r e es nd od]"
    then show "thread_ok g src D t'" using ok lt by auto
  next
    fix v e'
    assume "covers (Relax r e es nd) v (D v) e'"
    then show "D (fst e') \<le> D v + snd e' \<or>
        (\<exists>t' \<in> set [Write r e es nd od]. covers t' v (D v) e')"
      by auto
  qed
  then show ?thesis by simp
qed

lemma async_inv_write_relax:
  assumes inv: "async_inv g src D wl (add_mset (Write r e es nd od) ts)"
  shows "async_inv g src D wl (add_mset (Relax r e es nd) ts)"
proof -
  have ok: "thread_ok g src D (Write r e es nd od)"
    using inv unfolding async_inv_def by simp
  have "async_inv g src D wl (ts + mset [Relax r e es nd])"
  proof (rule async_inv_replace [OF inv])
    fix t' assume "t' \<in> set [Relax r e es nd]"
    then show "thread_ok g src D t'" using ok by auto
  next
    fix v e'
    assume "covers (Write r e es nd od) v (D v) e'"
    then show "D (fst e') \<le> D v + snd e' \<or>
        (\<exists>t' \<in> set [Relax r e es nd]. covers t' v (D v) e')"
      by auto
  qed
  then show ?thesis by simp
qed

lemma dists_BadWork [simp]: "dists (st\<lparr>BadWork := b\<rparr>) = dists st"
  by (rule ext) (simp add: dists_def)

lemma async_inv_thread_step:
  fixes st :: "('a SNode_scheme) State"
  assumes wf: "wf_graph g" and H: "no_overflow g src"
    and inv: "async_inv g src (dists st) wl (add_mset t ts)"
    and step: "AsyncAlgo_thread_step True g st t = (st', pushed, ts')"
  shows "async_inv g src (dists st') (wl + mset pushed) (ts + mset ts')"
proof -
  let ?D = "dists st"
  have ok: "thread_ok g src ?D t"
    using inv unfolding async_inv_def by simp
  have J: "justified g src ?D"
    using inv unfolding async_inv_def by blast
  show ?thesis
  proof (cases t)
    case (Start r)
    show ?thesis
    proof (cases "snd r \<noteq> dist (nodes st (fst r))")
      case True
      then have s: "st' = empty_work st" "pushed = []" "ts' = []"
        using step Start by auto
      have "async_inv g src ?D wl (ts + mset [])"
      proof (rule async_inv_replace [OF inv])
        fix v e assume "covers t v (?D v) e"
        with Start True show "?D (fst e) \<le> ?D v + snd e \<or> (\<exists>t' \<in> set []. covers t' v (?D v) e)"
          by (auto simp: dists_def)
      qed simp
      then show ?thesis using s by simp
    next
      case False
      then have s: "st' = st" "pushed = []" "ts' = [Scan r (g ! fst r)]"
        using step Start by auto
      have "async_inv g src ?D wl (ts + mset [Scan r (g ! fst r)])"
      proof (rule async_inv_replace [OF inv])
        fix t' assume "t' \<in> set [Scan r (g ! fst r)]"
        then show "thread_ok g src ?D t'" using ok Start by auto
      next
        fix v e assume "e \<in> set (g ! v)" "covers t v (?D v) e"
        with Start show "?D (fst e) \<le> ?D v + snd e \<or>
            (\<exists>t' \<in> set [Scan r (g ! fst r)]. covers t' v (?D v) e)"
          by auto
      qed
      then show ?thesis using s by simp
    qed
  next
    case (Scan r es)
    show ?thesis
    proof (cases es)
      case Nil
      then have s: "st' = st" "pushed = []" "ts' = []"
        using step Scan by auto
      have "async_inv g src ?D wl (ts + mset [])"
      proof (rule async_inv_replace [OF inv])
        fix v e assume "covers t v (?D v) e"
        with Scan Nil show "?D (fst e) \<le> ?D v + snd e \<or> (\<exists>t' \<in> set []. covers t' v (?D v) e)"
          by auto
      qed simp
      then show ?thesis using s by simp
    next
      case (Cons e0 rest)
      show ?thesis
      proof (cases "snd r \<noteq> dist (nodes st (fst r))")
        case True
        then have s: "st' = empty_work st" "pushed = []" "ts' = []"
          using step Scan Cons by auto
        have "async_inv g src ?D wl (ts + mset [])"
        proof (rule async_inv_replace [OF inv])
          fix v e assume "covers t v (?D v) e"
          with Scan True show "?D (fst e) \<le> ?D v + snd e \<or> (\<exists>t' \<in> set []. covers t' v (?D v) e)"
            by (auto simp: dists_def)
        qed simp
        then show ?thesis using s by simp
      next
        case False
        then have s: "st' = st" "pushed = []" "ts' = [Arg r e0 rest]"
          using step Scan Cons by auto
        have "async_inv g src ?D wl (ts + mset [Arg r e0 rest])"
        proof (rule async_inv_replace [OF inv])
          fix t' assume "t' \<in> set [Arg r e0 rest]"
          then show "thread_ok g src ?D t'" using ok Scan Cons by auto
        next
          fix v e assume "covers t v (?D v) e"
          with Scan Cons show "?D (fst e) \<le> ?D v + snd e \<or>
              (\<exists>t' \<in> set [Arg r e0 rest]. covers t' v (?D v) e)"
            by auto
        qed
        then show ?thesis using s by simp
      qed
    qed
  next
    case (Arg r e0 rest)
    let ?nd = "dist (nodes st (fst r)) + snd e0"
    have s: "st' = st" "pushed = []" "ts' = [Relax r e0 rest ?nd]"
      using step Arg by auto
    have p: "proposed g src ?D (fst e0) (?D (fst r) + snd e0)"
      using ok Arg J H by (intro proposed_read(1)) (auto simp: prod_eq_iff)
    have "async_inv g src ?D wl (ts + mset [Relax r e0 rest ?nd])"
    proof (rule async_inv_replace [OF inv])
      fix t' assume "t' \<in> set [Relax r e0 rest ?nd]"
      then show "thread_ok g src ?D t'" using ok Arg p by (auto simp: dists_def)
    next
      fix v e assume "covers t v (?D v) e"
      with Arg show "?D (fst e) \<le> ?D v + snd e \<or>
          (\<exists>t' \<in> set [Relax r e0 rest ?nd]. covers t' v (?D v) e)"
        by (auto simp: dists_def)
    qed
    then show ?thesis using s by simp
  next
    case (Relax r e0 rest nd)
    show ?thesis
    proof (cases "nd < ?D (fst e0)")
      case True
      then have s: "st' = st" "pushed = []" "ts' = [Write r e0 rest nd (?D (fst e0))]"
        using step Relax by (auto simp: Let_def dists_def)
      have "async_inv g src ?D wl (add_mset (Write r e0 rest nd (?D (fst e0))) ts)"
        using inv True unfolding Relax by (rule async_inv_relax_write)
      then show ?thesis using s by simp
    next
      case False
      then have s: "st' = st" "pushed = []" "ts' = [Scan r rest]"
        using step Relax by (auto simp: Let_def dists_def)
      have "async_inv g src ?D wl (add_mset (Scan r rest) ts)"
        using inv False unfolding Relax by (rule async_inv_relax_no)
      then show ?thesis using s by simp
    qed
  next
    case (Write r e0 rest nd od)
    have lt: "nd < od" using ok Write by simp
    show ?thesis
    proof (cases "?D (fst e0) = od")
      case True
      then have s: "dists st' = ?D(fst e0 := nd)" "pushed = []" "ts' = [Push r e0 rest nd]"
        using step Write by (auto simp: compare_exchange_def dists_def [symmetric])
      have "async_inv g src (?D(fst e0 := nd)) wl (add_mset (Push r e0 rest nd) ts)"
        using wf inv lt unfolding Write True [symmetric] by (rule async_inv_write)
      then show ?thesis using s by simp
    next
      case False
      then have s: "st' = st" "pushed = []" "ts' = [Relax r e0 rest nd]"
        using step Write by (auto simp: compare_exchange_def dists_def)
      have "async_inv g src ?D wl (add_mset (Relax r e0 rest nd) ts)"
        using inv unfolding Write by (rule async_inv_write_relax)
      then show ?thesis using s by simp
    qed
  next
    case (Push r e0 rest nd)
    have s: "st' = st" "pushed = [(fst e0, nd)]" "ts' = [Scan r rest]"
      using step Push by auto
    have "async_inv g src ?D (add_mset (fst e0, nd) wl) (add_mset (Scan r rest) ts)"
      using inv unfolding Push by (rule async_inv_push)
    then show ?thesis using s by simp
  qed
qed

lemma async_inv_op_step:
  fixes c c' :: "('a SNode_scheme) State \<times> UpdateRequest multiset \<times> thread multiset"
  assumes wf: "wf_graph g" and H: "no_overflow g src"
    and step: "AsyncAlgo_op_step True g c c'"
    and inv: "async_inv g src (dists (fst c)) (fst (snd c)) (snd (snd c))"
  shows "async_inv g src (dists (fst c')) (fst (snd c')) (snd (snd c'))"
  using step inv
proof (induction rule: AsyncAlgo_op_step.induct)
  case (run st t st' pushed ts' wl ts)
  then show ?case using async_inv_thread_step [OF wf H] by simp
next
  case (weak st wl req ii rest newDist oldDist ts)
  then show ?case using async_inv_write_relax by simp
qed

lemma async_inv_step:
  fixes c c' :: "('a SNode_scheme) State \<times> UpdateRequest multiset \<times> thread multiset"
  assumes wf: "wf_graph g" and H: "no_overflow g src"
    and step: "AsyncAlgo_step True g c c'"
    and inv: "async_inv g src (dists (fst c)) (fst (snd c)) (snd (snd c))"
  shows "async_inv g src (dists (fst c')) (fst (snd c')) (snd (snd c'))"
  using step inv
proof (induction rule: AsyncAlgo_step.induct)
  case (pop st req wl ts)
  then show ?case using async_inv_pop by simp
next
  case (op c c')
  from op.hyps op.prems show ?case by (rule async_inv_op_step [OF wf H])
qed

lemma async_inv_steps:
  fixes c c' :: "('a SNode_scheme) State \<times> UpdateRequest multiset \<times> thread multiset"
  assumes wf: "wf_graph g" and H: "no_overflow g src"
    and steps: "rtranclp (AsyncAlgo_step True g) c c'"
    and inv: "async_inv g src (dists (fst c)) (fst (snd c)) (snd (snd c))"
  shows "async_inv g src (dists (fst c')) (fst (snd c')) (snd (snd c'))"
  using steps inv
  by (induction rule: rtranclp_induct) (auto intro: async_inv_step [OF wf H])

lemma async_inv_start:
  assumes src: "src < length g"
  shows "async_inv g src (dists (fst (AsyncAlgo_start g src (do_all_Initialize g st))))
           (fst (snd (AsyncAlgo_start g src (do_all_Initialize g st))))
           (snd (snd (AsyncAlgo_start g src (do_all_Initialize g st))))"
proof -
  let ?D = "(dists (do_all_Initialize g st))(src := 0)"
  have inf: "\<And>v. v < length g \<Longrightarrow> v \<noteq> src \<Longrightarrow> ?D v = DIST_INFINITY"
    by (simp add: dists_do_all_Initialize)
  have J: "justified g src ?D"
    unfolding justified_def
  proof (intro allI impI)
    fix v assume "v < length g" "?D v \<noteq> DIST_INFINITY"
    with inf have "v = src" by blast
    then have "jpath g src ?D v (unat (?D v)) [src]"
      using jpath.base [of ?D src g] by simp
    then show "\<exists>vs. jpath g src ?D v (unat (?D v)) vs" ..
  qed
  have fin: "?D src \<noteq> DIST_INFINITY"
    by (simp add: DIST_INFINITY_def)
  have "async_inv g src ?D {#} (mset (map (\<lambda>ii. Arg (src, 0) ii []) (g ! src)))"
    unfolding async_inv_def
  proof (intro conjI ballI allI impI)
    show "?D src = 0" by simp
    show "justified g src ?D" by (rule J)
  next
    fix t assume "t \<in># mset (map (\<lambda>ii. Arg (src, 0) ii []) (g ! src))"
    then show "thread_ok g src ?D t" using src fin by auto
  next
    fix v e assume v: "v < length g" "?D v \<noteq> DIST_INFINITY" "e \<in> set (g ! v)"
    with inf have "v = src" by blast
    with v have "Arg (src, 0) e [] \<in># mset (map (\<lambda>ii. Arg (src, 0) ii []) (g ! src))"
      by auto
    moreover have "covers (Arg (src, 0) e []) v (?D v) e"
      using \<open>v = src\<close> by simp
    ultimately show "?D (fst e) \<le> ?D v + snd e \<or> (v, ?D v) \<in># {#} \<or>
        (\<exists>t \<in># mset (map (\<lambda>ii. Arg (src, 0) ii []) (g ! src)). covers t v (?D v) e)"
      by blast
  qed simp_all
  then show ?thesis by (simp add: AsyncAlgo_start_def)
qed

lemma AsyncAlgo_solution:
  fixes st :: "('a SNode_scheme) State"
  assumes wf: "wf_graph g" and src: "src < length g" and H: "no_overflow g src"
    and run: "rtranclp (AsyncAlgo_step True g)
                (AsyncAlgo_start g src (do_all_Initialize g st)) (st', {#}, {#})"
  shows "dists st' src = 0 \<and> relaxed g (dists st') \<and> justified g src (dists st')"
proof -
  have "async_inv g src (dists st') {#} {#}"
    using async_inv_steps [OF wf H run async_inv_start [OF src]] by simp
  then show ?thesis
    unfolding async_inv_def relaxed_def by auto
qed

lemma set_thread_ok_mono:
  assumes "set_thread_ok g src D t" and "\<And>x. D' x \<le> D x"
    and "\<And>x. D x \<noteq> DIST_INFINITY \<Longrightarrow> D' x \<noteq> DIST_INFINITY"
  shows "set_thread_ok g src D' t"
  using assms proposed_mono [where D = D and D' = D' and g = g and src = src]
  by (cases t) auto

lemma work_set_push_member: "x \<in># work_set_push useSet wl u \<longleftrightarrow> x = u \<or> x \<in># wl"
  by (auto simp: work_set_push_def)

lemma set_inv_replace:
  assumes inv: "set_inv g src D wl (add_mset t ts)"
    and ok: "\<And>t'. t' \<in> set ts' \<Longrightarrow> set_thread_ok g src D t'"
    and cov: "\<And>v e. v < length g \<Longrightarrow> e \<in> set (g ! v) \<Longrightarrow> set_covers t v (D v) e \<Longrightarrow>
        D (fst e) \<le> D v + snd e \<or> (\<exists>t' \<in> set ts'. set_covers t' v (D v) e)"
  shows "set_inv g src D wl (ts + mset ts')"
proof -
  have c: "D (fst e) \<le> D v + snd e \<or> v \<in># wl \<or> (\<exists>t \<in># ts + mset ts'. set_covers t v (D v) e)"
    if v: "v < length g" "D v \<noteq> DIST_INFINITY" "e \<in> set (g ! v)" for v e
  proof -
    from inv v have "D (fst e) \<le> D v + snd e \<or> v \<in># wl \<or>
        (\<exists>t' \<in># add_mset t ts. set_covers t' v (D v) e)"
      unfolding set_inv_def by blast
    then consider "D (fst e) \<le> D v + snd e" | "v \<in># wl"
      | "set_covers t v (D v) e" | t' where "t' \<in># ts" "set_covers t' v (D v) e"
      by auto
    then show ?thesis
    proof cases
      case 3
      from cov [OF v(1) v(3) this] show ?thesis by auto
    qed auto
  qed
  have o: "\<forall>t' \<in># ts + mset ts'. set_thread_ok g src D t'"
    using inv ok unfolding set_inv_def by auto
  show ?thesis
    unfolding set_inv_def
    using inv c o unfolding set_inv_def by blast
qed

lemma set_inv_pop:
  assumes inv: "set_inv g src D (add_mset r wl) ts"
  shows "set_inv g src D wl (add_mset (SetScan r (g ! r)) ts)"
proof -
  have c: "D (fst e) \<le> D v + snd e \<or> v \<in># wl \<or>
      (\<exists>t \<in># add_mset (SetScan r (g ! r)) ts. set_covers t v (D v) e)"
    if v: "v < length g" "D v \<noteq> DIST_INFINITY" "e \<in> set (g ! v)" for v e
  proof -
    from inv v have "D (fst e) \<le> D v + snd e \<or> v \<in># add_mset r wl \<or>
        (\<exists>t' \<in># ts. set_covers t' v (D v) e)"
      unfolding set_inv_def by blast
    then show ?thesis using v(3) by auto
  qed
  have o: "\<forall>t' \<in># add_mset (SetScan r (g ! r)) ts. set_thread_ok g src D t'"
    using inv unfolding set_inv_def by auto
  have w: "\<forall>r \<in># wl. r < length g \<and> D r \<noteq> DIST_INFINITY"
    using inv unfolding set_inv_def by auto
  show ?thesis
    unfolding set_inv_def
    using inv c o w unfolding set_inv_def by blast
qed

lemma set_inv_write:
  assumes wf: "wf_graph g"
    and inv: "set_inv g src D wl (add_mset (SetWrite r e es nd od) ts)"
    and lt: "nd < D (fst e)"
  shows "set_inv g src (D(fst e := nd)) wl (add_mset (SetPush r e es) ts)"
proof -
  let ?u = "fst e"
  let ?D' = "D(?u := nd)"
  have ok: "set_thread_ok g src D (SetWrite r e es nd od)"
    using inv unfolding set_inv_def by simp
  have le: "\<And>x. ?D' x \<le> D x" using lt by (simp add: less_imp_le)
  have fin: "\<And>x. D x \<noteq> DIST_INFINITY \<Longrightarrow> ?D' x \<noteq> DIST_INFINITY"
    using lt DIST_INFINITY_max [of "D ?u"] by auto
  have u: "?u < length g"
    using ok wf by (auto simp: wf_graph_def)
  have ufin: "?D' ?u \<noteq> DIST_INFINITY"
    using lt DIST_INFINITY_max [of "D ?u"] by auto
  have i1: "?D' src = 0"
  proof -
    have "D src = 0" using inv unfolding set_inv_def by blast
    with lt have "?u \<noteq> src" by auto
    with \<open>D src = 0\<close> show ?thesis by simp
  qed
  have i2: "justified g src ?D'"
    using inv ok lt unfolding set_inv_def by (intro justified_relax) auto
  have i3: "\<forall>q \<in># wl. q < length g \<and> ?D' q \<noteq> DIST_INFINITY"
  proof
    fix q assume "q \<in># wl"
    with inv have "q < length g \<and> D q \<noteq> DIST_INFINITY"
      unfolding set_inv_def by auto
    then show "q < length g \<and> ?D' q \<noteq> DIST_INFINITY" using fin by blast
  qed
  have i4: "\<forall>t \<in># add_mset (SetPush r e es) ts. set_thread_ok g src ?D' t"
  proof
    fix t assume "t \<in># add_mset (SetPush r e es) ts"
    then consider "t = SetPush r e es" | "t \<in># ts" by auto
    then show "set_thread_ok g src ?D' t"
    proof cases
      case 1
      then show ?thesis using ok fin [of r] u ufin by auto
    next
      case 2
      with inv have "set_thread_ok g src D t" unfolding set_inv_def by auto
      then show ?thesis using le fin by (rule set_thread_ok_mono)
    qed
  qed
  have i5: "?D' (fst e') \<le> ?D' v + snd e' \<or> v \<in># wl \<or>
      (\<exists>t \<in># add_mset (SetPush r e es) ts. set_covers t v (?D' v) e')"
    if v: "v < length g" "?D' v \<noteq> DIST_INFINITY" "e' \<in> set (g ! v)" for v e'
  proof (cases "v = ?u")
    case True
    then show ?thesis by simp
  next
    case False
    then have Dv: "?D' v = D v" by simp
    from inv v Dv have "D (fst e') \<le> D v + snd e' \<or> v \<in># wl \<or>
        (\<exists>t \<in># add_mset (SetWrite r e es nd od) ts. set_covers t v (D v) e')"
      unfolding set_inv_def by auto
    then consider "D (fst e') \<le> D v + snd e'" | "v \<in># wl"
      | "set_covers (SetWrite r e es nd od) v (D v) e'"
      | t where "t \<in># ts" "set_covers t v (D v) e'"
      by auto
    then show ?thesis
    proof cases
      case 1
      with le [of "fst e'"] have "?D' (fst e') \<le> D v + snd e'" by (rule order_trans)
      then show ?thesis using Dv by simp
    next
      case 2
      then show ?thesis by simp
    next
      case 3
      then consider "r = v" "e' \<in> set es" | "r = v" "e' = e" "nd = D v + snd e'"
        by auto
      then show ?thesis
      proof cases
        case 1
        then have "set_covers (SetPush r e es) v (?D' v) e'" by simp
        then show ?thesis by auto
      next
        case 2
        then have "?D' (fst e') = ?D' v + snd e'" using Dv by simp
        then show ?thesis by simp
      qed
    next
      case 4
      then show ?thesis using Dv by auto
    qed
  qed
  show ?thesis
    unfolding set_inv_def
    using i1 i2 i3 i4 i5 by blast
qed

lemma set_inv_push:
  assumes inv: "set_inv g src D wl (add_mset (SetPush r e es) ts)"
  shows "set_inv g src D (work_set_push useSet wl (fst e)) (add_mset (SetScan r es) ts)"
proof -
  let ?wl' = "work_set_push useSet wl (fst e)"
  have ok: "set_thread_ok g src D (SetPush r e es)"
    using inv unfolding set_inv_def by simp
  have c: "D (fst e') \<le> D v + snd e' \<or> v \<in># ?wl' \<or>
      (\<exists>t \<in># add_mset (SetScan r es) ts. set_covers t v (D v) e')"
    if v: "v < length g" "D v \<noteq> DIST_INFINITY" "e' \<in> set (g ! v)" for v e'
  proof -
    from inv v have "D (fst e') \<le> D v + snd e' \<or> v \<in># wl \<or>
        (\<exists>t' \<in># add_mset (SetPush r e es) ts. set_covers t' v (D v) e')"
      unfolding set_inv_def by blast
    then consider "D (fst e') \<le> D v + snd e'" | "v \<in># wl"
      | "set_covers (SetPush r e es) v (D v) e'" | t' where "t' \<in># ts" "set_covers t' v (D v) e'"
      by auto
    then show ?thesis
    proof cases
      case 2
      then show ?thesis by (simp add: work_set_push_member)
    next
      case 3
      then consider "r = v" "e' \<in> set es" | "fst e = v" by auto
      then show ?thesis
      proof cases
        case 1
        then have "set_covers (SetScan r es) v (D v) e'" by simp
        then show ?thesis by auto
      next
        case 2
        then show ?thesis by (simp add: work_set_push_member)
      qed
    qed auto
  qed
  have o: "\<forall>t' \<in># add_mset (SetScan r es) ts. set_thread_ok g src D t'"
    using inv ok unfolding set_inv_def by auto
  have w: "\<forall>q \<in># ?wl'. q < length g \<and> D q \<noteq> DIST_INFINITY"
    using inv ok unfolding set_inv_def by (auto simp: work_set_push_member)
  show ?thesis
    unfolding set_inv_def
    using inv c o w unfolding set_inv_def by blast
qed

lemma set_inv_relax_no:
  assumes inv: "set_inv g src D wl (add_mset (SetRelax r e es nd) ts)"
    and nlt: "\<not> nd < D (fst e)"
  shows "set_inv g src D wl (add_mset (SetScan r es) ts)"
proof -
  have ok: "set_thread_ok g src D (SetRelax r e es nd)"
    using inv unfolding set_inv_def by simp
  have "set_inv g src D wl (ts + mset [SetScan r es])"
  proof (rule set_inv_replace [OF inv])
    fix t' assume "t' \<in> set [SetScan r es]"
    then show "set_thread_ok g src D t'" using ok by auto
  next
    fix v e'
    assume "set_covers (SetRelax r e es nd) v (D v) e'"
    then consider "r = v" "e' \<in> set es" | "r = v" "e' = e" "nd = D v + snd e'"
      by auto
    then show "D (fst e') \<le> D v + snd e' \<or> (\<exists>t' \<in> set [SetScan r es]. set_covers t' v (D v) e')"
    proof cases
      case 1
      then show ?thesis by simp
    next
      case 2
      then show ?thesis using nlt by (simp add: not_less)
    qed
  qed
  then show ?thesis by simp
qed

lemma set_inv_relax_write:
  assumes inv: "set_inv g src D wl (add_mset (SetRelax r e es nd) ts)" and lt: "nd < od"
  shows "set_inv g src D wl (add_mset (SetWrite r e es nd od) ts)"
proof -
  have ok: "set_thread_ok g src D (SetRelax r e es nd)"
    using inv unfolding set_inv_def by simp
  have "set_inv g src D wl (ts + mset [SetWrite r e es nd od])"
  proof (rule set_inv_replace [OF inv])
    fix t' assume "t' \<in> set [SetWrite r e es nd od]"
    then show "set_thread_ok g src D t'" using ok lt by auto
  next
    fix v e'
    assume "set_covers (SetRelax r e es nd) v (D v) e'"
    then show "D (fst e') \<le> D v + snd e' \<or>
        (\<exists>t' \<in> set [SetWrite r e es nd od]. set_covers t' v (D v) e')"
      by auto
  qed
  then show ?thesis by simp
qed

lemma set_inv_write_relax:
  assumes inv: "set_inv g src D wl (add_mset (SetWrite r e es nd od) ts)"
  shows "set_inv g src D wl (add_mset (SetRelax r e es nd) ts)"
proof -
  have ok: "set_thread_ok g src D (SetWrite r e es nd od)"
    using inv unfolding set_inv_def by simp
  have "set_inv g src D wl (ts + mset [SetRelax r e es nd])"
  proof (rule set_inv_replace [OF inv])
    fix t' assume "t' \<in> set [SetRelax r e es nd]"
    then show "set_thread_ok g src D t'" using ok by auto
  next
    fix v e'
    assume "set_covers (SetWrite r e es nd od) v (D v) e'"
    then show "D (fst e') \<le> D v + snd e' \<or>
        (\<exists>t' \<in> set [SetRelax r e es nd]. set_covers t' v (D v) e')"
      by auto
  qed
  then show ?thesis by simp
qed

lemma set_inv_thread_step:
  fixes st :: "('a SNode_scheme) State"
  assumes wf: "wf_graph g" and H: "no_overflow g src"
    and inv: "set_inv g src (dists st) wl (add_mset t ts)"
    and step: "AsyncSetAlgo_thread_step True st t = (st', pushed, ts')"
  shows "set_inv g src (dists st') (foldl (work_set_push useSet) wl pushed) (ts + mset ts')"
proof -
  let ?D = "dists st"
  have ok: "set_thread_ok g src ?D t"
    using inv unfolding set_inv_def by simp
  have J: "justified g src ?D"
    using inv unfolding set_inv_def by blast
  show ?thesis
  proof (cases t)
    case (SetScan r es)
    show ?thesis
    proof (cases es)
      case Nil
      then have s: "st' = st" "pushed = []" "ts' = []"
        using step SetScan by auto
      have "set_inv g src ?D wl (ts + mset [])"
      proof (rule set_inv_replace [OF inv])
        fix v e assume "set_covers t v (?D v) e"
        with SetScan Nil show "?D (fst e) \<le> ?D v + snd e \<or>
            (\<exists>t' \<in> set []. set_covers t' v (?D v) e)"
          by auto
      qed simp
      then show ?thesis using s by simp
    next
      case (Cons e0 rest)
      let ?nd = "dist (nodes st r) + snd e0"
      have s: "st' = st" "pushed = []" "ts' = [SetRelax r e0 rest ?nd]"
        using step SetScan Cons by auto
      have p: "proposed g src ?D (fst e0) (?D r + snd e0)"
        using ok SetScan Cons J H by (intro proposed_read(1)) (auto simp: prod_eq_iff)
      have "set_inv g src ?D wl (ts + mset [SetRelax r e0 rest ?nd])"
      proof (rule set_inv_replace [OF inv])
        fix t' assume "t' \<in> set [SetRelax r e0 rest ?nd]"
        then show "set_thread_ok g src ?D t'" using ok SetScan Cons p by (auto simp: dists_def)
      next
        fix v e assume "set_covers t v (?D v) e"
        with SetScan Cons show "?D (fst e) \<le> ?D v + snd e \<or>
            (\<exists>t' \<in> set [SetRelax r e0 rest ?nd]. set_covers t' v (?D v) e)"
          by (auto simp: dists_def)
      qed
      then show ?thesis using s by simp
    qed
  next
    case (SetRelax r e0 rest nd)
    show ?thesis
    proof (cases "nd < ?D (fst e0)")
      case True
      then have s: "st' = st" "pushed = []" "ts' = [SetWrite r e0 rest nd (?D (fst e0))]"
        using step SetRelax by (auto simp: Let_def dists_def)
      have "set_inv g src ?D wl (add_mset (SetWrite r e0 rest nd (?D (fst e0))) ts)"
        using inv True unfolding SetRelax by (rule set_inv_relax_write)
      then show ?thesis using s by simp
    next
      case False
      then have s: "st' = st" "pushed = []" "ts' = [SetScan r rest]"
        using step SetRelax by (auto simp: Let_def dists_def)
      have "set_inv g src ?D wl (add_mset (SetScan r rest) ts)"
        using inv False unfolding SetRelax by (rule set_inv_relax_no)
      then show ?thesis using s by simp
    qed
  next
    case (SetWrite r e0 rest nd od)
    have lt: "nd < od" using ok SetWrite by simp
    show ?thesis
    proof (cases "?D (fst e0) = od")
      case True
      then have s: "dists st' = ?D(fst e0 := nd)" "pushed = []" "ts' = [SetPush r e0 rest]"
        using step SetWrite by (auto simp: compare_exchange_def dists_def [symmetric])
      have "set_inv g src (?D(fst e0 := nd)) wl (add_mset (SetPush r e0 rest) ts)"
        using wf inv lt unfolding SetWrite True [symmetric] by (rule set_inv_write)
      then show ?thesis using s by simp
    next
      case False
      then have s: "st' = st" "pushed = []" "ts' = [SetRelax r e0 rest nd]"
        using step SetWrite by (auto simp: compare_exchange_def dists_def)
      have "set_inv g src ?D wl (add_mset (SetRelax r e0 rest nd) ts)"
        using inv unfolding SetWrite by (rule set_inv_write_relax)
      then show ?thesis using s by simp
    qed
  next
    case (SetPush r e0 rest)
    have s: "st' = st" "pushed = [fst e0]" "ts' = [SetScan r rest]"
      using step SetPush by auto
    have "set_inv g src ?D (work_set_push useSet wl (fst e0)) (add_mset (SetScan r rest) ts)"
      using inv unfolding SetPush by (rule set_inv_push)
    then show ?thesis using s by simp
  qed
qed

lemma set_inv_step:
  fixes c c' :: "('a SNode_scheme) State \<times> GNode multiset \<times> set_thread multiset"
  assumes wf: "wf_graph g" and H: "no_overflow g src"
    and step: "AsyncSetAlgo_step True useSet g c c'"
    and inv: "set_inv g src (dists (fst c)) (fst (snd c)) (snd (snd c))"
  shows "set_inv g src (dists (fst c')) (fst (snd c')) (snd (snd c'))"
  using step inv
proof (induction rule: AsyncSetAlgo_step.induct)
  case (pop st req wl ts)
  then show ?case using set_inv_pop by simp
next
  case (run st t st' pushed ts' wl ts)
  then show ?case using set_inv_thread_step [OF wf H] by simp
qed

lemma set_inv_steps:
  fixes c c' :: "('a SNode_scheme) State \<times> GNode multiset \<times> set_thread multiset"
  assumes wf: "wf_graph g" and H: "no_overflow g src"
    and steps: "rtranclp (AsyncSetAlgo_step True useSet g) c c'"
    and inv: "set_inv g src (dists (fst c)) (fst (snd c)) (snd (snd c))"
  shows "set_inv g src (dists (fst c')) (fst (snd c')) (snd (snd c'))"
  using steps inv
  by (induction rule: rtranclp_induct) (auto intro: set_inv_step [OF wf H])

lemma set_inv_start:
  assumes src: "src < length g"
  shows "set_inv g src (dists (fst (AsyncSetAlgo_start g src (do_all_Initialize g st))))
           (fst (snd (AsyncSetAlgo_start g src (do_all_Initialize g st))))
           (snd (snd (AsyncSetAlgo_start g src (do_all_Initialize g st))))"
proof -
  let ?D = "(dists (do_all_Initialize g st))(src := 0)"
  have inf: "\<And>v. v < length g \<Longrightarrow> v \<noteq> src \<Longrightarrow> ?D v = DIST_INFINITY"
    by (simp add: dists_do_all_Initialize)
  have J: "justified g src ?D"
    unfolding justified_def
  proof (intro allI impI)
    fix v assume "v < length g" "?D v \<noteq> DIST_INFINITY"
    with inf have "v = src" by blast
    then have "jpath g src ?D v (unat (?D v)) [src]"
      using jpath.base [of ?D src g] by simp
    then show "\<exists>vs. jpath g src ?D v (unat (?D v)) vs" ..
  qed
  have fin: "?D src \<noteq> DIST_INFINITY"
    by (simp add: DIST_INFINITY_def)
  have "set_inv g src ?D {#} (mset (map (\<lambda>ii. SetScan src [ii]) (g ! src)))"
    unfolding set_inv_def
  proof (intro conjI ballI allI impI)
    show "?D src = 0" by simp
    show "justified g src ?D" by (rule J)
  next
    fix t assume "t \<in># mset (map (\<lambda>ii. SetScan src [ii]) (g ! src))"
    then show "set_thread_ok g src ?D t" using src fin by auto
  next
    fix v e assume v: "v < length g" "?D v \<noteq> DIST_INFINITY" "e \<in> set (g ! v)"
    with inf have "v = src" by blast
    with v have "SetScan src [e] \<in># mset (map (\<lambda>ii. SetScan src [ii]) (g ! src))"
      by auto
    moreover have "set_covers (SetScan src [e]) v (?D v) e"
      using \<open>v = src\<close> by simp
    ultimately show "?D (fst e) \<le> ?D v + snd e \<or> v \<in># {#} \<or>
        (\<exists>t \<in># mset (map (\<lambda>ii. SetScan src [ii]) (g ! src)). set_covers t v (?D v) e)"
      by blast
  qed simp_all
  then show ?thesis by (simp add: AsyncSetAlgo_start_def)
qed

lemma AsyncSetAlgo_solution:
  fixes st :: "('a SNode_scheme) State"
  assumes wf: "wf_graph g" and src: "src < length g" and H: "no_overflow g src"
    and run: "rtranclp (AsyncSetAlgo_step True useSet g)
                (AsyncSetAlgo_start g src (do_all_Initialize g st)) (st', {#}, {#})"
  shows "dists st' src = 0 \<and> relaxed g (dists st') \<and> justified g src (dists st')"
proof -
  have "set_inv g src (dists st') {#} {#}"
    using set_inv_steps [OF wf H run set_inv_start [OF src]] by simp
  then show ?thesis
    unfolding set_inv_def relaxed_def by auto
qed

lemma AsyncAlgo_relaxEdge_acc:
  "AsyncAlgo_relaxEdge UseCas st sd e p =
     (fst (AsyncAlgo_relaxEdge UseCas st sd e []), p @ snd (AsyncAlgo_relaxEdge UseCas st sd e []))"
  by (cases e) (simp add: AsyncAlgo_relaxEdge_eq)

lemma AsyncAlgo_relaxNode_loop_acc:
  "AsyncAlgo_relaxNode_loop UseCas r es (st, p) =
     (fst (AsyncAlgo_relaxNode_loop UseCas r es (st, [])),
      p @ snd (AsyncAlgo_relaxNode_loop UseCas r es (st, [])))"
proof (induction es arbitrary: st p)
  case Nil
  then show ?case by simp
next
  case (Cons e es)
  show ?case
  proof (cases "snd r \<noteq> dist (nodes st (fst r))")
    case True
    then show ?thesis by simp
  next
    case False
    let ?sd = "dist (nodes st (fst r))"
    let ?Y = "AsyncAlgo_relaxEdge UseCas st ?sd e []"
    have l: "AsyncAlgo_relaxNode_loop UseCas r (e # es) (st, p)
        = AsyncAlgo_relaxNode_loop UseCas r es (fst ?Y, p @ snd ?Y)"
      using False AsyncAlgo_relaxEdge_acc [of UseCas st ?sd e p] by simp
    have r: "AsyncAlgo_relaxNode_loop UseCas r (e # es) (st, [])
        = AsyncAlgo_relaxNode_loop UseCas r es (fst ?Y, snd ?Y)"
      using False by simp
    show ?thesis
      unfolding l r
      using Cons.IH [of "fst ?Y" "p @ snd ?Y"] Cons.IH [of "fst ?Y" "snd ?Y"]
      by simp
  qed
qed

lemma op_steps_steps:
  "rtranclp (AsyncAlgo_op_step UseCas g) c c' \<Longrightarrow> rtranclp (AsyncAlgo_step UseCas g) c c'"
proof (induction rule: rtranclp_induct)
  case base
  then show ?case by simp
next
  case (step y z)
  from step.hyps(2) have "AsyncAlgo_step UseCas g y z" by (rule AsyncAlgo_step.op)
  with step.IH show ?case by (rule rtranclp.rtrancl_into_rtrancl)
qed

text \<open>
  The loop of \<open>relaxEdge\<close>, run without another thread in between, is a run of the
  thread from \<open>Relax\<close> to the next \<open>Scan\<close>.
\<close>

lemma AsyncAlgo_relax_run:
  "rtranclp (AsyncAlgo_op_step UseCas g) (st, wl, add_mset (Relax r e es nd) ts)
     (fst (AsyncAlgo_relaxEdge_loop UseCas (fst e) nd (st, [])),
      wl + mset (snd (AsyncAlgo_relaxEdge_loop UseCas (fst e) nd (st, []))),
      add_mset (Scan r es) ts)"
proof (cases "nd < dist (nodes st (fst e))")
  case True
  let ?od = "dist (nodes st (fst e))"
  let ?st' = "bad_work ?od (setDist st (fst e) nd)"
  have s1: "AsyncAlgo_op_step UseCas g (st, wl, add_mset (Relax r e es nd) ts)
      (st, wl + mset [], ts + mset [Write r e es nd ?od])"
    by (rule AsyncAlgo_op_step.run) (use True in \<open>simp add: Let_def\<close>)
  have s2: "AsyncAlgo_op_step UseCas g (st, wl, add_mset (Write r e es nd ?od) ts)
      (?st', wl + mset [], ts + mset [Push r e es nd])"
    by (rule AsyncAlgo_op_step.run) (simp add: compare_exchange_def)
  have s3: "AsyncAlgo_op_step UseCas g (?st', wl, add_mset (Push r e es nd) ts)
      (?st', wl + mset [(fst e, nd)], ts + mset [Scan r es])"
    by (rule AsyncAlgo_op_step.run) simp
  have "rtranclp (AsyncAlgo_op_step UseCas g) (st, wl, add_mset (Relax r e es nd) ts)
      (?st', wl + mset [(fst e, nd)], add_mset (Scan r es) ts)"
    using s1 s2 s3 by (simp add: rtranclp.intros(1) rtranclp.rtrancl_into_rtrancl)
  moreover have "AsyncAlgo_relaxEdge_loop UseCas (fst e) nd (st, []) = (?st', [(fst e, nd)])"
    using True
    by (simp add: AsyncAlgo_relaxEdge_loop_eq bad_work_def trackWork_def setDist_def)
  ultimately show ?thesis by simp
next
  case False
  have "AsyncAlgo_op_step UseCas g (st, wl, add_mset (Relax r e es nd) ts)
      (st, wl + mset [], ts + mset [Scan r es])"
    by (rule AsyncAlgo_op_step.run) (use False in \<open>simp add: Let_def\<close>)
  then have "rtranclp (AsyncAlgo_op_step UseCas g) (st, wl, add_mset (Relax r e es nd) ts)
      (st, wl, add_mset (Scan r es) ts)"
    by simp
  moreover have "AsyncAlgo_relaxEdge_loop UseCas (fst e) nd (st, []) = (st, [])"
    using False by (simp add: AsyncAlgo_relaxEdge_loop_eq)
  ultimately show ?thesis by simp
qed

lemma AsyncAlgo_scan_run:
  "rtranclp (AsyncAlgo_op_step UseCas g) (st, wl, add_mset (Scan r es) ts)
     (fst (AsyncAlgo_relaxNode_loop UseCas r es (st, [])),
      wl + mset (snd (AsyncAlgo_relaxNode_loop UseCas r es (st, []))), ts)"
proof (induction es arbitrary: st wl)
  case Nil
  have "AsyncAlgo_op_step UseCas g (st, wl, add_mset (Scan r []) ts) (st, wl + mset [], ts + mset [])"
    by (rule AsyncAlgo_op_step.run) simp
  then show ?case by simp
next
  case (Cons e es)
  show ?case
  proof (cases "snd r \<noteq> dist (nodes st (fst r))")
    case True
    have "AsyncAlgo_op_step UseCas g (st, wl, add_mset (Scan r (e # es)) ts)
        (empty_work st, wl + mset [], ts + mset [])"
      by (rule AsyncAlgo_op_step.run) (use True in simp)
    then show ?thesis using True by (simp add: empty_work_def)
  next
    case False
    let ?sd = "dist (nodes st (fst r))"
    let ?Y = "AsyncAlgo_relaxEdge UseCas st ?sd e []"
    have Y: "?Y = AsyncAlgo_relaxEdge_loop UseCas (fst e) (?sd + snd e) (st, [])"
      by (simp add: AsyncAlgo_relaxEdge_def Let_def)
    have s1: "AsyncAlgo_op_step UseCas g (st, wl, add_mset (Scan r (e # es)) ts)
        (st, wl + mset [], ts + mset [Arg r e es])"
      by (rule AsyncAlgo_op_step.run) (use False in simp)
    have s2: "AsyncAlgo_op_step UseCas g (st, wl, add_mset (Arg r e es) ts)
        (st, wl + mset [], ts + mset [Relax r e es (?sd + snd e)])"
      by (rule AsyncAlgo_op_step.run) simp
    have "rtranclp (AsyncAlgo_op_step UseCas g) (st, wl, add_mset (Scan r (e # es)) ts)
        (st, wl, add_mset (Relax r e es (?sd + snd e)) ts)"
      using s1 s2 by (simp add: rtranclp.intros(1) rtranclp.rtrancl_into_rtrancl)
    also have "rtranclp (AsyncAlgo_op_step UseCas g)
        (st, wl, add_mset (Relax r e es (?sd + snd e)) ts)
        (fst ?Y, wl + mset (snd ?Y), add_mset (Scan r es) ts)"
      unfolding Y by (rule AsyncAlgo_relax_run)
    also have "rtranclp (AsyncAlgo_op_step UseCas g)
        (fst ?Y, wl + mset (snd ?Y), add_mset (Scan r es) ts)
        (fst (AsyncAlgo_relaxNode_loop UseCas r es (fst ?Y, [])),
         wl + mset (snd ?Y) + mset (snd (AsyncAlgo_relaxNode_loop UseCas r es (fst ?Y, []))), ts)"
      by (rule Cons.IH)
    finally show ?thesis
      using False AsyncAlgo_relaxNode_loop_acc [of UseCas r es "fst ?Y" "snd ?Y"]
      by (simp add: add.assoc)
  qed
qed

text \<open>One application of the operator, run without interruption, is a run of the threads.\<close>

lemma AsyncAlgo_relaxNode_run:
  "rtranclp (AsyncAlgo_step UseCas g) (st, add_mset r wl, ts)
     (fst (AsyncAlgo_relaxNode UseCas g r (st, [])),
      wl + mset (snd (AsyncAlgo_relaxNode UseCas g r (st, []))), ts)"
proof -
  have p: "AsyncAlgo_step UseCas g (st, add_mset r wl, ts) (st, wl, add_mset (Start r) ts)"
    by (rule AsyncAlgo_step.pop)
  show ?thesis
  proof (cases "snd r \<noteq> dist (nodes st (fst r))")
    case True
    have "AsyncAlgo_op_step UseCas g (st, wl, add_mset (Start r) ts)
        (empty_work st, wl + mset [], ts + mset [])"
      by (rule AsyncAlgo_op_step.run) (use True in simp)
    then have "AsyncAlgo_step UseCas g (st, wl, add_mset (Start r) ts)
        (empty_work st, wl + mset [], ts + mset [])"
      by (rule AsyncAlgo_step.op)
    with p have "rtranclp (AsyncAlgo_step UseCas g) (st, add_mset r wl, ts) (empty_work st, wl, ts)"
      by (simp add: rtranclp.intros(1) rtranclp.rtrancl_into_rtrancl)
    then show ?thesis using True by (simp add: AsyncAlgo_relaxNode_def empty_work_def)
  next
    case False
    have "AsyncAlgo_op_step UseCas g (st, wl, add_mset (Start r) ts)
        (st, wl + mset [], ts + mset [Scan r (g ! fst r)])"
      by (rule AsyncAlgo_op_step.run) (use False in simp)
    then have "AsyncAlgo_step UseCas g (st, wl, add_mset (Start r) ts)
        (st, wl + mset [], ts + mset [Scan r (g ! fst r)])"
      by (rule AsyncAlgo_step.op)
    with p have "rtranclp (AsyncAlgo_step UseCas g) (st, add_mset r wl, ts)
        (st, wl, add_mset (Scan r (g ! fst r)) ts)"
      by (simp add: rtranclp.intros(1) rtranclp.rtrancl_into_rtrancl)
    also note op_steps_steps [OF AsyncAlgo_scan_run [of UseCas g st wl r "g ! fst r" ts]]
    finally show ?thesis using False by (simp add: AsyncAlgo_relaxNode_def)
  qed
qed

lemma AsyncAlgo_initial_fold_acc:
  "foldl (AsyncAlgo_InitialProcess UseCas src) (st, p) es =
     (fst (foldl (AsyncAlgo_InitialProcess UseCas src) (st, []) es),
      p @ snd (foldl (AsyncAlgo_InitialProcess UseCas src) (st, []) es))"
proof (induction es arbitrary: st p)
  case Nil
  then show ?case by simp
next
  case (Cons e es)
  let ?Y = "AsyncAlgo_relaxEdge UseCas st (dist (nodes st src)) e []"
  have l: "AsyncAlgo_InitialProcess UseCas src (st, p) e = (fst ?Y, p @ snd ?Y)"
    using AsyncAlgo_relaxEdge_acc [of UseCas st "dist (nodes st src)" e p]
    by (simp add: AsyncAlgo_InitialProcess_def)
  have r: "AsyncAlgo_InitialProcess UseCas src (st, []) e = (fst ?Y, snd ?Y)"
    by (simp add: AsyncAlgo_InitialProcess_def)
  show ?case
    using Cons.IH [of "fst ?Y" "p @ snd ?Y"] Cons.IH [of "fst ?Y" "snd ?Y"]
    by (simp add: l r)
qed

lemma AsyncAlgo_initial_tasks_run:
  "rtranclp (AsyncAlgo_op_step UseCas g)
     (st, wl, mset (map (\<lambda>ii. Arg (src, 0) ii []) es) + ts)
     (fst (foldl (AsyncAlgo_InitialProcess UseCas src) (st, []) es),
      wl + mset (snd (foldl (AsyncAlgo_InitialProcess UseCas src) (st, []) es)), ts)"
proof (induction es arbitrary: st wl)
  case Nil
  then show ?case by simp
next
  case (Cons e es)
  let ?rest = "mset (map (\<lambda>ii. Arg (src, 0) ii []) es) + ts"
  let ?sd = "dist (nodes st src)"
  let ?Y = "AsyncAlgo_relaxEdge UseCas st ?sd e []"
  have Y: "?Y = AsyncAlgo_relaxEdge_loop UseCas (fst e) (?sd + snd e) (st, [])"
    by (simp add: AsyncAlgo_relaxEdge_def Let_def)
  have first: "AsyncAlgo_InitialProcess UseCas src (st, []) e = ?Y"
    by (simp add: AsyncAlgo_InitialProcess_def)
  have s1: "AsyncAlgo_op_step UseCas g (st, wl, add_mset (Arg (src, 0) e []) ?rest)
      (st, wl + mset [], ?rest + mset [Relax (src, 0) e [] (?sd + snd e)])"
    by (rule AsyncAlgo_op_step.run) simp
  have s3: "AsyncAlgo_op_step UseCas g (fst ?Y, wl + mset (snd ?Y), add_mset (Scan (src, 0) []) ?rest)
      (fst ?Y, wl + mset (snd ?Y) + mset [], ?rest + mset [])"
    by (rule AsyncAlgo_op_step.run) simp
  have "rtranclp (AsyncAlgo_op_step UseCas g) (st, wl, add_mset (Arg (src, 0) e []) ?rest)
      (st, wl, add_mset (Relax (src, 0) e [] (?sd + snd e)) ?rest)"
    using s1 by simp
  also have "rtranclp (AsyncAlgo_op_step UseCas g)
      (st, wl, add_mset (Relax (src, 0) e [] (?sd + snd e)) ?rest)
      (fst ?Y, wl + mset (snd ?Y), add_mset (Scan (src, 0) []) ?rest)"
    unfolding Y by (rule AsyncAlgo_relax_run)
  also have "rtranclp (AsyncAlgo_op_step UseCas g)
      (fst ?Y, wl + mset (snd ?Y), add_mset (Scan (src, 0) []) ?rest)
      (fst ?Y, wl + mset (snd ?Y), ?rest)"
    using s3 by simp
  also have "rtranclp (AsyncAlgo_op_step UseCas g) (fst ?Y, wl + mset (snd ?Y), ?rest)
      (fst (foldl (AsyncAlgo_InitialProcess UseCas src) (fst ?Y, []) es),
       wl + mset (snd ?Y) + mset (snd (foldl (AsyncAlgo_InitialProcess UseCas src) (fst ?Y, []) es)),
       ts)"
    by (rule Cons.IH)
  finally show ?case
    using AsyncAlgo_initial_fold_acc [of UseCas src "fst ?Y" "snd ?Y" es] first
    by (simp add: add.assoc)
qed

text \<open>The applications of \<open>InitialProcess\<close> one after the other, in edge order.\<close>

lemma AsyncAlgo_initial_op_run:
  "rtranclp (AsyncAlgo_op_step UseCas g) (AsyncAlgo_start g src st)
     (fst (AsyncAlgo_initial UseCas g src st), mset (snd (AsyncAlgo_initial UseCas g src st)), {#})"
  using AsyncAlgo_initial_tasks_run [of UseCas g "setDist st src 0" "{#}" src "g ! src" "{#}"]
  by (simp add: AsyncAlgo_start_def AsyncAlgo_initial_def)

lemma AsyncAlgo_initial_run:
  "rtranclp (AsyncAlgo_step UseCas g) (AsyncAlgo_start g src st)
     (fst (AsyncAlgo_initial UseCas g src st), mset (snd (AsyncAlgo_initial UseCas g src st)), {#})"
  by (rule op_steps_steps [OF AsyncAlgo_initial_op_run])

lemma AsyncAlgo_fifo_run:
  "AsyncAlgo_fifo fuel UseCas g st wl = Some st' \<Longrightarrow>
     rtranclp (AsyncAlgo_step UseCas g) (st, mset wl, {#}) (st', {#}, {#})"
proof (induction fuel UseCas g st wl rule: AsyncAlgo_fifo.induct)
  case (1 fuel UseCas g st)
  then show ?case by simp
next
  case (2 UseCas g st req wl)
  then show ?case by simp
next
  case (3 fuel UseCas g st req wl)
  let ?R = "AsyncAlgo_relaxNode UseCas g req (st, [])"
  have "rtranclp (AsyncAlgo_step UseCas g) (st, mset (req # wl), {#})
      (fst ?R, mset wl + mset (snd ?R), {#})"
    using AsyncAlgo_relaxNode_run [of UseCas g st req "mset wl" "{#}"] by simp
  also have "rtranclp (AsyncAlgo_step UseCas g) (fst ?R, mset wl + mset (snd ?R), {#}) (st', {#}, {#})"
    using 3 by simp
  finally show ?case .
qed

lemma AsyncSetAlgo_relaxEdge_acc:
  "AsyncSetAlgo_relaxEdge UseCas st v e p =
     (fst (AsyncSetAlgo_relaxEdge UseCas st v e []), p @ snd (AsyncSetAlgo_relaxEdge UseCas st v e []))"
  by (cases e) (simp add: AsyncSetAlgo_relaxEdge_eq)

lemma AsyncSetAlgo_fold_acc:
  "foldl (\<lambda>sp ii. AsyncSetAlgo_relaxEdge UseCas (fst sp) v ii (snd sp)) (st, p) es =
     (fst (foldl (\<lambda>sp ii. AsyncSetAlgo_relaxEdge UseCas (fst sp) v ii (snd sp)) (st, []) es),
      p @ snd (foldl (\<lambda>sp ii. AsyncSetAlgo_relaxEdge UseCas (fst sp) v ii (snd sp)) (st, []) es))"
proof (induction es arbitrary: st p)
  case Nil
  then show ?case by simp
next
  case (Cons e es)
  let ?Y = "AsyncSetAlgo_relaxEdge UseCas st v e []"
  have l: "AsyncSetAlgo_relaxEdge UseCas st v e p = (fst ?Y, p @ snd ?Y)"
    by (rule AsyncSetAlgo_relaxEdge_acc)
  show ?case
    using Cons.IH [of "fst ?Y" "p @ snd ?Y"] Cons.IH [of "fst ?Y" "snd ?Y"]
    by (simp add: l)
qed

lemma AsyncSetAlgo_relax_run:
  "rtranclp (AsyncSetAlgo_step UseCas useSet g) (st, wl, add_mset (SetRelax v e es nd) ts)
     (fst (AsyncSetAlgo_relaxEdge_loop UseCas (fst e) nd (st, [])),
      foldl (work_set_push useSet) wl (snd (AsyncSetAlgo_relaxEdge_loop UseCas (fst e) nd (st, []))),
      add_mset (SetScan v es) ts)"
proof (cases "nd < dist (nodes st (fst e))")
  case True
  let ?od = "dist (nodes st (fst e))"
  let ?st' = "bad_work ?od (setDist st (fst e) nd)"
  have s1: "AsyncSetAlgo_step UseCas useSet g (st, wl, add_mset (SetRelax v e es nd) ts)
      (st, foldl (work_set_push useSet) wl [], ts + mset [SetWrite v e es nd ?od])"
    by (rule AsyncSetAlgo_step.run) (use True in \<open>simp add: Let_def\<close>)
  have s2: "AsyncSetAlgo_step UseCas useSet g (st, wl, add_mset (SetWrite v e es nd ?od) ts)
      (?st', foldl (work_set_push useSet) wl [], ts + mset [SetPush v e es])"
    by (rule AsyncSetAlgo_step.run) (simp add: compare_exchange_def)
  have s3: "AsyncSetAlgo_step UseCas useSet g (?st', wl, add_mset (SetPush v e es) ts)
      (?st', foldl (work_set_push useSet) wl [fst e], ts + mset [SetScan v es])"
    by (rule AsyncSetAlgo_step.run) simp
  have "rtranclp (AsyncSetAlgo_step UseCas useSet g) (st, wl, add_mset (SetRelax v e es nd) ts)
      (?st', foldl (work_set_push useSet) wl [fst e], add_mset (SetScan v es) ts)"
    using s1 s2 s3 by (simp add: rtranclp.intros(1) rtranclp.rtrancl_into_rtrancl)
  moreover have "AsyncSetAlgo_relaxEdge_loop UseCas (fst e) nd (st, []) = (?st', [fst e])"
    using True
    by (simp add: AsyncSetAlgo_relaxEdge_loop_eq bad_work_def trackWork_def setDist_def)
  ultimately show ?thesis by simp
next
  case False
  have "AsyncSetAlgo_step UseCas useSet g (st, wl, add_mset (SetRelax v e es nd) ts)
      (st, foldl (work_set_push useSet) wl [], ts + mset [SetScan v es])"
    by (rule AsyncSetAlgo_step.run) (use False in \<open>simp add: Let_def\<close>)
  then have "rtranclp (AsyncSetAlgo_step UseCas useSet g)
      (st, wl, add_mset (SetRelax v e es nd) ts) (st, wl, add_mset (SetScan v es) ts)"
    by simp
  moreover have "AsyncSetAlgo_relaxEdge_loop UseCas (fst e) nd (st, []) = (st, [])"
    using False by (simp add: AsyncSetAlgo_relaxEdge_loop_eq)
  ultimately show ?thesis by simp
qed

lemma AsyncSetAlgo_scan_run:
  "rtranclp (AsyncSetAlgo_step UseCas useSet g) (st, wl, add_mset (SetScan v es) ts)
     (fst (foldl (\<lambda>sp ii. AsyncSetAlgo_relaxEdge UseCas (fst sp) v ii (snd sp)) (st, []) es),
      foldl (work_set_push useSet) wl
        (snd (foldl (\<lambda>sp ii. AsyncSetAlgo_relaxEdge UseCas (fst sp) v ii (snd sp)) (st, []) es)),
      ts)"
proof (induction es arbitrary: st wl)
  case Nil
  have "AsyncSetAlgo_step UseCas useSet g (st, wl, add_mset (SetScan v []) ts)
      (st, foldl (work_set_push useSet) wl [], ts + mset [])"
    by (rule AsyncSetAlgo_step.run) simp
  then show ?case by simp
next
  case (Cons e es)
  let ?Y = "AsyncSetAlgo_relaxEdge UseCas st v e []"
  let ?wl1 = "foldl (work_set_push useSet) wl (snd ?Y)"
  have Y: "?Y = AsyncSetAlgo_relaxEdge_loop UseCas (fst e) (dist (nodes st v) + snd e) (st, [])"
    by (simp add: AsyncSetAlgo_relaxEdge_def Let_def)
  have s1: "AsyncSetAlgo_step UseCas useSet g (st, wl, add_mset (SetScan v (e # es)) ts)
      (st, foldl (work_set_push useSet) wl [],
       ts + mset [SetRelax v e es (dist (nodes st v) + snd e)])"
    by (rule AsyncSetAlgo_step.run) simp
  have "rtranclp (AsyncSetAlgo_step UseCas useSet g) (st, wl, add_mset (SetScan v (e # es)) ts)
      (st, wl, add_mset (SetRelax v e es (dist (nodes st v) + snd e)) ts)"
    using s1 by simp
  also have "rtranclp (AsyncSetAlgo_step UseCas useSet g)
      (st, wl, add_mset (SetRelax v e es (dist (nodes st v) + snd e)) ts)
      (fst ?Y, ?wl1, add_mset (SetScan v es) ts)"
    unfolding Y by (rule AsyncSetAlgo_relax_run)
  also note Cons.IH [of "fst ?Y" ?wl1]
  finally show ?case
    using AsyncSetAlgo_fold_acc [of UseCas v "fst ?Y" "snd ?Y" es]
    by simp
qed

lemma AsyncSetAlgo_relaxNode_run:
  "rtranclp (AsyncSetAlgo_step UseCas useSet g) (st, add_mset v wl, ts)
     (fst (AsyncSetAlgo_relaxNode UseCas g v (st, [])),
      foldl (work_set_push useSet) wl (snd (AsyncSetAlgo_relaxNode UseCas g v (st, []))), ts)"
proof -
  have "AsyncSetAlgo_step UseCas useSet g (st, add_mset v wl, ts)
      (st, wl, add_mset (SetScan v (g ! v)) ts)"
    by (rule AsyncSetAlgo_step.pop)
  then have "rtranclp (AsyncSetAlgo_step UseCas useSet g) (st, add_mset v wl, ts)
      (st, wl, add_mset (SetScan v (g ! v)) ts)"
    by (rule r_into_rtranclp)
  also note AsyncSetAlgo_scan_run [of UseCas useSet g st wl v "g ! v" ts]
  finally show ?thesis by (simp add: AsyncSetAlgo_relaxNode_def)
qed

lemma AsyncSetAlgo_initial_tasks_run:
  "rtranclp (AsyncSetAlgo_step UseCas useSet g)
     (st, wl, mset (map (\<lambda>ii. SetScan src [ii]) es) + ts)
     (fst (foldl (\<lambda>sp ii. AsyncSetAlgo_relaxEdge UseCas (fst sp) src ii (snd sp)) (st, []) es),
      foldl (work_set_push useSet) wl
        (snd (foldl (\<lambda>sp ii. AsyncSetAlgo_relaxEdge UseCas (fst sp) src ii (snd sp)) (st, []) es)),
      ts)"
proof (induction es arbitrary: st wl)
  case Nil
  then show ?case by simp
next
  case (Cons e es)
  let ?rest = "mset (map (\<lambda>ii. SetScan src [ii]) es) + ts"
  let ?Y = "AsyncSetAlgo_relaxEdge UseCas st src e []"
  let ?wl1 = "foldl (work_set_push useSet) wl (snd ?Y)"
  have "rtranclp (AsyncSetAlgo_step UseCas useSet g) (st, wl, add_mset (SetScan src [e]) ?rest)
      (fst (foldl (\<lambda>sp ii. AsyncSetAlgo_relaxEdge UseCas (fst sp) src ii (snd sp)) (st, []) [e]),
       foldl (work_set_push useSet) wl
        (snd (foldl (\<lambda>sp ii. AsyncSetAlgo_relaxEdge UseCas (fst sp) src ii (snd sp)) (st, []) [e])),
       ?rest)"
    by (rule AsyncSetAlgo_scan_run)
  then have "rtranclp (AsyncSetAlgo_step UseCas useSet g) (st, wl, add_mset (SetScan src [e]) ?rest)
      (fst ?Y, ?wl1, ?rest)"
    by simp
  also note Cons.IH [of "fst ?Y" ?wl1]
  finally show ?case
    using AsyncSetAlgo_fold_acc [of UseCas src "fst ?Y" "snd ?Y" es]
    by simp
qed

lemma AsyncSetAlgo_initial_run:
  "rtranclp (AsyncSetAlgo_step UseCas useSet g) (AsyncSetAlgo_start g src st)
     (fst (AsyncSetAlgo_initial UseCas g src st),
      foldl (work_set_push useSet) {#} (snd (AsyncSetAlgo_initial UseCas g src st)), {#})"
  using AsyncSetAlgo_initial_tasks_run [of UseCas useSet g "setDist st src 0" "{#}" src "g ! src" "{#}"]
  by (simp add: AsyncSetAlgo_start_def AsyncSetAlgo_initial_def)

lemma mset_work_list_push:
  "mset (foldl (work_list_push useSet) wl p) = foldl (work_set_push useSet) (mset wl) p"
  by (induction p arbitrary: wl) (auto simp: work_list_push_def work_set_push_def)

lemma AsyncSetAlgo_fifo_run:
  "AsyncSetAlgo_fifo fuel UseCas useSet g st wl = Some st' \<Longrightarrow>
     rtranclp (AsyncSetAlgo_step UseCas useSet g) (st, mset wl, {#}) (st', {#}, {#})"
proof (induction fuel UseCas useSet g st wl rule: AsyncSetAlgo_fifo.induct)
  case (1 fuel UseCas useSet g st)
  then show ?case by simp
next
  case (2 UseCas useSet g st req wl)
  then show ?case by simp
next
  case (3 fuel UseCas useSet g st req wl)
  let ?R = "AsyncSetAlgo_relaxNode UseCas g req (st, [])"
  have "rtranclp (AsyncSetAlgo_step UseCas useSet g) (st, mset (req # wl), {#})
      (fst ?R, foldl (work_set_push useSet) (mset wl) (snd ?R), {#})"
    using AsyncSetAlgo_relaxNode_run [of UseCas useSet g st req "mset wl" "{#}"] by simp
  also have "rtranclp (AsyncSetAlgo_step UseCas useSet g)
      (fst ?R, foldl (work_set_push useSet) (mset wl) (snd ?R), {#}) (st', {#}, {#})"
    using 3 by (simp add: mset_work_list_push)
  finally show ?case .
qed

lemma jpath_simple:
  assumes wf: "wf_graph g" and src: "src < length g"
    and W: "\<forall>v < length g. \<forall>e \<in> set (g ! v). unat (snd e) \<le> W"
    and p: "jpath g src D v L vs"
  shows "distinct vs \<and> set vs \<subseteq> {..<length g} \<and> vs \<noteq> [] \<and> L \<le> (length vs - 1) * W"
  using p
proof (induction rule: jpath.induct)
  case base
  then show ?case using src by simp
next
  case (step v L vs u d)
  have "u < length g" using wf step.hyps by (force simp: wf_graph_def)
  moreover have "unat d \<le> W" using W step.hyps by force
  moreover have "L + W \<le> length vs * W"
  proof -
    from step.IH have "L + W \<le> (length vs - 1) * W + W" by simp
    also have "\<dots> = length vs * W"
      using step.IH by (cases vs) simp_all
    finally show ?thesis .
  qed
  moreover have "L + unat d \<le> (length (u # vs) - 1) * W"
    using \<open>unat d \<le> W\<close> \<open>L + W \<le> length vs * W\<close> by simp
  moreover have "distinct (u # vs)" "set (u # vs) \<subseteq> {..<length g}"
    using step.IH step.hyps \<open>u < length g\<close> by simp_all
  ultimately show ?case by blast
qed

lemma no_overflow_bound:
  assumes wf: "wf_graph g" and src: "src < length g"
    and W: "\<forall>v < length g. \<forall>e \<in> set (g ! v). unat (snd e) \<le> W"
    and small: "length g * W < 2 ^ 32"
  shows "no_overflow g src"
  unfolding no_overflow_def
proof (intro allI impI)
  fix v L vs u d
  assume p: "jpath g src (\<lambda>_. 0) v L vs" and v: "v < length g" and e: "(u, d) \<in> set (g ! v)"
  from jpath_simple [OF wf src W p]
  have d: "distinct vs" and s: "set vs \<subseteq> {..<length g}" and L: "L \<le> (length vs - 1) * W"
    and ne: "vs \<noteq> []"
    by auto
  have "length vs = card (set vs)" using d by (simp add: distinct_card)
  also have "\<dots> \<le> card {..<length g}" using s by (intro card_mono) auto
  finally have len: "length vs \<le> length g" by simp
  have "unat d \<le> W" using W v e by force
  with L have "L + unat d \<le> (length vs - 1) * W + W" by simp
  also have "\<dots> = length vs * W" using ne by (cases vs) simp_all
  also have "\<dots> \<le> length g * W" using len by simp
  finally show "L + unat d < 2 ^ 32" using small by simp
qed

lemma dist_sum_lower:
  assumes "u < length g" "nd < dists st u" "dists st' = (dists st)(u := nd)"
  shows "dist_sum g st' < dist_sum g st"
  unfolding dist_sum_def
proof (rule sum_strict_mono_ex1)
  show "finite {..<length g}" by simp
  show "\<forall>x \<in> {..<length g}. unat (dists st' x) \<le> unat (dists st x)"
    using assms by (auto simp: word_less_nat_alt)
  show "\<exists>a \<in> {..<length g}. unat (dists st' a) < unat (dists st a)"
    using assms by (auto simp: word_less_nat_alt intro!: bexI [of _ u])
qed

lemma AsyncAlgo_relaxEdge_measure:
  assumes "fst e < length g"
  shows "(dist_sum g (fst (AsyncAlgo_relaxEdge UseCas st sd e [])) < dist_sum g st) \<or>
         AsyncAlgo_relaxEdge UseCas st sd e [] = (st, [])"
proof (cases "sd + snd e < dists st (fst e)")
  case True
  have "dists (fst (AsyncAlgo_relaxEdge UseCas st sd e [])) = (dists st)(fst e := sd + snd e)"
    using True by (cases e) (auto simp: AsyncAlgo_relaxEdge_eq dists_def [symmetric])
  with assms True show ?thesis by (intro disjI1 dist_sum_lower)
next
  case False
  then show ?thesis by (cases e) (simp add: AsyncAlgo_relaxEdge_eq dists_def)
qed

lemma AsyncSetAlgo_relaxEdge_measure:
  assumes "fst e < length g"
  shows "(dist_sum g (fst (AsyncSetAlgo_relaxEdge UseCas st v e [])) < dist_sum g st) \<or>
         AsyncSetAlgo_relaxEdge UseCas st v e [] = (st, [])"
proof (cases "dists st v + snd e < dists st (fst e)")
  case True
  have "dists (fst (AsyncSetAlgo_relaxEdge UseCas st v e []))
      = (dists st)(fst e := dists st v + snd e)"
    using True by (cases e) (auto simp: AsyncSetAlgo_relaxEdge_eq dists_def [symmetric])
  with assms True show ?thesis by (intro disjI1 dist_sum_lower)
next
  case False
  then show ?thesis by (cases e) (simp add: AsyncSetAlgo_relaxEdge_eq dists_def)
qed

lemma AsyncAlgo_relaxNode_loop_measure:
  assumes "\<forall>e \<in> set es. fst e < length g"
  shows "dist_sum g (fst (AsyncAlgo_relaxNode_loop UseCas r es (st, []))) \<le> dist_sum g st \<and>
     (snd (AsyncAlgo_relaxNode_loop UseCas r es (st, [])) \<noteq> [] \<longrightarrow>
        dist_sum g (fst (AsyncAlgo_relaxNode_loop UseCas r es (st, []))) < dist_sum g st)"
  using assms
proof (induction es arbitrary: st)
  case Nil
  then show ?case by simp
next
  case (Cons e es)
  show ?case
  proof (cases "snd r \<noteq> dist (nodes st (fst r))")
    case True
    then show ?thesis by (simp add: dist_sum_def dists_def)
  next
    case False
    let ?Y = "AsyncAlgo_relaxEdge UseCas st (dist (nodes st (fst r))) e []"
    let ?R = "AsyncAlgo_relaxNode_loop UseCas r es (fst ?Y, [])"
    have eq: "AsyncAlgo_relaxNode_loop UseCas r (e # es) (st, []) = (fst ?R, snd ?Y @ snd ?R)"
      using False AsyncAlgo_relaxNode_loop_acc [of UseCas r es "fst ?Y" "snd ?Y"] by simp
    have IH: "dist_sum g (fst ?R) \<le> dist_sum g (fst ?Y)"
      "snd ?R \<noteq> [] \<Longrightarrow> dist_sum g (fst ?R) < dist_sum g (fst ?Y)"
      using Cons.IH [of "fst ?Y"] Cons.prems by auto
    from AsyncAlgo_relaxEdge_measure [of e g UseCas st "dist (nodes st (fst r))"] Cons.prems
    consider "dist_sum g (fst ?Y) < dist_sum g st" | "?Y = (st, [])" by auto
    then show ?thesis
    proof cases
      case 1
      then show ?thesis using IH(1) unfolding eq by simp
    next
      case 2
      then show ?thesis using IH unfolding eq by auto
    qed
  qed
qed

lemma AsyncSetAlgo_fold_measure:
  assumes "\<forall>e \<in> set es. fst e < length g"
  shows "dist_sum g (fst (foldl (\<lambda>sp ii. AsyncSetAlgo_relaxEdge UseCas (fst sp) v ii (snd sp))
            (st, []) es)) \<le> dist_sum g st \<and>
     (snd (foldl (\<lambda>sp ii. AsyncSetAlgo_relaxEdge UseCas (fst sp) v ii (snd sp)) (st, []) es) \<noteq> []
        \<longrightarrow> dist_sum g (fst (foldl (\<lambda>sp ii. AsyncSetAlgo_relaxEdge UseCas (fst sp) v ii (snd sp))
            (st, []) es)) < dist_sum g st)"
  using assms
proof (induction es arbitrary: st)
  case Nil
  then show ?case by simp
next
  case (Cons e es)
  let ?F = "\<lambda>sp ii. AsyncSetAlgo_relaxEdge UseCas (fst sp) v ii (snd sp)"
  let ?Y = "AsyncSetAlgo_relaxEdge UseCas st v e []"
  let ?R = "foldl ?F (fst ?Y, []) es"
  have eq: "foldl ?F (st, []) (e # es) = (fst ?R, snd ?Y @ snd ?R)"
    using AsyncSetAlgo_fold_acc [of UseCas v "fst ?Y" "snd ?Y" es] by simp
  have IH: "dist_sum g (fst ?R) \<le> dist_sum g (fst ?Y)"
    "snd ?R \<noteq> [] \<Longrightarrow> dist_sum g (fst ?R) < dist_sum g (fst ?Y)"
    using Cons.IH [of "fst ?Y"] Cons.prems by auto
  from AsyncSetAlgo_relaxEdge_measure [of e g UseCas st v] Cons.prems
  consider "dist_sum g (fst ?Y) < dist_sum g st" | "?Y = (st, [])" by auto
  then show ?case
  proof cases
    case 1
    then show ?thesis using IH(1) unfolding eq by simp
  next
    case 2
    then show ?thesis using IH unfolding eq by auto
  qed
qed

lemma AsyncAlgo_fifo_total_aux:
  assumes wf: "wf_graph g" and H: "no_overflow g src"
  shows "\<forall>(st :: ('a SNode_scheme) State) wl.
     dist_sum g st = n \<and> length wl = m \<and> async_inv g src (dists st) (mset wl) {#} \<longrightarrow>
     (\<exists>fuel st'. AsyncAlgo_fifo fuel True g st wl = Some st')"
proof (induction n arbitrary: m rule: less_induct)
  case (less n)
  show ?case
  proof (induction m rule: less_induct)
    case inner: (less m)
    show ?case
    proof (intro allI impI, elim conjE)
      fix st :: "('a SNode_scheme) State" and wl
      assume n: "dist_sum g st = n" and m: "length wl = m"
        and inv: "async_inv g src (dists st) (mset wl) {#}"
      show "\<exists>fuel st'. AsyncAlgo_fifo fuel True g st wl = Some st'"
      proof (cases wl)
        case Nil
        then have "AsyncAlgo_fifo 0 True g st wl = Some st" by simp
        then show ?thesis by blast
      next
        case (Cons r wl')
        let ?R = "AsyncAlgo_relaxNode True g r (st, [])"
        have r: "fst r < length g"
          using inv Cons unfolding async_inv_def by simp
        have tg: "\<forall>e \<in> set (g ! fst r). fst e < length g"
          using wf r by (auto simp: wf_graph_def)
        have inv': "async_inv g src (dists (fst ?R)) (mset (wl' @ snd ?R)) {#}"
          using async_inv_steps [OF wf H AsyncAlgo_relaxNode_run [of True g st r "mset wl'" "{#}"]]
            inv Cons by simp
        have ms: "dist_sum g (fst ?R) \<le> dist_sum g st \<and>
            (snd ?R \<noteq> [] \<longrightarrow> dist_sum g (fst ?R) < dist_sum g st)"
        proof (cases "snd r \<noteq> dist (nodes st (fst r))")
          case True
          then show ?thesis
            by (simp add: AsyncAlgo_relaxNode_def dist_sum_def dists_def)
        next
          case False
          then show ?thesis
            using AsyncAlgo_relaxNode_loop_measure [OF tg, of True r st]
            by (simp add: AsyncAlgo_relaxNode_def)
        qed
        have "\<exists>fuel st'. AsyncAlgo_fifo fuel True g (fst ?R) (wl' @ snd ?R) = Some st'"
        proof (cases "dist_sum g (fst ?R) < n")
          case True
          from less.IH [OF True, of "length (wl' @ snd ?R)"] inv' show ?thesis by blast
        next
          case False
          with ms n have e: "dist_sum g (fst ?R) = n" "snd ?R = []" by auto
          have "length wl' < m" using m Cons by auto
          from inner.IH [OF this] e inv' show ?thesis by auto
        qed
        then obtain fuel st' where
          "AsyncAlgo_fifo fuel True g (fst ?R) (wl' @ snd ?R) = Some st'"
          by blast
        then have "AsyncAlgo_fifo (Suc fuel) True g st wl = Some st'"
          using Cons by simp
        then show ?thesis by blast
      qed
    qed
  qed
qed

lemma AsyncSetAlgo_fifo_total_aux:
  assumes wf: "wf_graph g" and H: "no_overflow g src"
  shows "\<forall>(st :: ('a SNode_scheme) State) wl.
     dist_sum g st = n \<and> length wl = m \<and> set_inv g src (dists st) (mset wl) {#} \<longrightarrow>
     (\<exists>fuel st'. AsyncSetAlgo_fifo fuel True useSet g st wl = Some st')"
proof (induction n arbitrary: m rule: less_induct)
  case (less n)
  show ?case
  proof (induction m rule: less_induct)
    case inner: (less m)
    show ?case
    proof (intro allI impI, elim conjE)
      fix st :: "('a SNode_scheme) State" and wl
      assume n: "dist_sum g st = n" and m: "length wl = m"
        and inv: "set_inv g src (dists st) (mset wl) {#}"
      show "\<exists>fuel st'. AsyncSetAlgo_fifo fuel True useSet g st wl = Some st'"
      proof (cases wl)
        case Nil
        then have "AsyncSetAlgo_fifo 0 True useSet g st wl = Some st" by simp
        then show ?thesis by blast
      next
        case (Cons r wl')
        let ?R = "AsyncSetAlgo_relaxNode True g r (st, [])"
        let ?wl2 = "foldl (work_list_push useSet) wl' (snd ?R)"
        have r: "r < length g"
          using inv Cons unfolding set_inv_def by simp
        have tg: "\<forall>e \<in> set (g ! r). fst e < length g"
          using wf r by (auto simp: wf_graph_def)
        have inv': "set_inv g src (dists (fst ?R)) (mset ?wl2) {#}"
          using set_inv_steps [OF wf H
              AsyncSetAlgo_relaxNode_run [of True useSet g st r "mset wl'" "{#}"]]
            inv Cons by (simp add: mset_work_list_push)
        have ms: "dist_sum g (fst ?R) \<le> dist_sum g st \<and>
            (snd ?R \<noteq> [] \<longrightarrow> dist_sum g (fst ?R) < dist_sum g st)"
          using AsyncSetAlgo_fold_measure [OF tg, of True r st]
          by (simp add: AsyncSetAlgo_relaxNode_def)
        have "\<exists>fuel st'. AsyncSetAlgo_fifo fuel True useSet g (fst ?R) ?wl2 = Some st'"
        proof (cases "dist_sum g (fst ?R) < n")
          case True
          from less.IH [OF True, of "length ?wl2"] inv' show ?thesis by blast
        next
          case False
          with ms n have e: "dist_sum g (fst ?R) = n" "snd ?R = []" by auto
          have "length wl' < m" using m Cons by auto
          from inner.IH [OF this] e inv' show ?thesis by auto
        qed
        then obtain fuel st' where
          "AsyncSetAlgo_fifo fuel True useSet g (fst ?R) ?wl2 = Some st'"
          by blast
        then have "AsyncSetAlgo_fifo (Suc fuel) True useSet g st wl = Some st'"
          using Cons by simp
        then show ?thesis by blast
      qed
    qed
  qed
qed

lemma AsyncAlgo_complete_run:
  fixes st :: "('a SNode_scheme) State"
  assumes wf: "wf_graph g" and src: "src < length g" and H: "no_overflow g src"
  shows "\<exists>stP. rtranclp (AsyncAlgo_step True g)
      (AsyncAlgo_start g src (do_all_Initialize g st)) (stP, {#}, {#})"
proof -
  let ?I = "AsyncAlgo_initial True g src (do_all_Initialize g st)"
  have i: "rtranclp (AsyncAlgo_step True g) (AsyncAlgo_start g src (do_all_Initialize g st))
      (fst ?I, mset (snd ?I), {#})"
    by (rule AsyncAlgo_initial_run)
  have "async_inv g src (dists (fst ?I)) (mset (snd ?I)) {#}"
    using async_inv_steps [OF wf H i async_inv_start [OF src]] by simp
  with AsyncAlgo_fifo_total_aux [OF wf H, of "dist_sum g (fst ?I)" "length (snd ?I)"]
  obtain fuel st' where "AsyncAlgo_fifo fuel True g (fst ?I) (snd ?I) = Some st'"
    by blast
  from i AsyncAlgo_fifo_run [OF this] have "rtranclp (AsyncAlgo_step True g)
      (AsyncAlgo_start g src (do_all_Initialize g st)) (st', {#}, {#})"
    by (rule rtranclp_trans)
  then show ?thesis ..
qed

lemma AsyncSetAlgo_complete_run:
  fixes st :: "('a SNode_scheme) State"
  assumes wf: "wf_graph g" and src: "src < length g" and H: "no_overflow g src"
  shows "\<exists>stP. rtranclp (AsyncSetAlgo_step True useSet g)
      (AsyncSetAlgo_start g src (do_all_Initialize g st)) (stP, {#}, {#})"
proof -
  let ?I = "AsyncSetAlgo_initial True g src (do_all_Initialize g st)"
  let ?wl = "foldl (work_list_push useSet) [] (snd ?I)"
  have i: "rtranclp (AsyncSetAlgo_step True useSet g)
      (AsyncSetAlgo_start g src (do_all_Initialize g st)) (fst ?I, mset ?wl, {#})"
    using AsyncSetAlgo_initial_run [of True useSet g src "do_all_Initialize g st"]
    by (simp add: mset_work_list_push)
  have "set_inv g src (dists (fst ?I)) (mset ?wl) {#}"
    using set_inv_steps [OF wf H i set_inv_start [OF src]] by simp
  with AsyncSetAlgo_fifo_total_aux [OF wf H, of "dist_sum g (fst ?I)" "length ?wl" useSet]
  obtain fuel st' where "AsyncSetAlgo_fifo fuel True useSet g (fst ?I) ?wl = Some st'"
    by blast
  from i AsyncSetAlgo_fifo_run [OF this] have "rtranclp (AsyncSetAlgo_step True useSet g)
      (AsyncSetAlgo_start g src (do_all_Initialize g st)) (st', {#}, {#})"
    by (rule rtranclp_trans)
  then show ?thesis ..
qed

lemma mset_nth_split:
  "i < length ts \<Longrightarrow> mset ts = add_mset (ts ! i) (mset (take i ts) + mset (drop (Suc i) ts))"
proof -
  assume "i < length ts"
  then have "ts = take i ts @ ts ! i # drop (Suc i) ts" by (rule id_take_nth_drop)
  then have "mset ts = mset (take i ts @ ts ! i # drop (Suc i) ts)" by simp
  then show ?thesis by simp
qed

lemma AsyncAlgo_schedule_run:
  "AsyncAlgo_schedule UseCas g sched c = Some c' \<Longrightarrow>
     rtranclp (AsyncAlgo_op_step UseCas g)
       (fst c, mset (fst (snd c)), mset (snd (snd c)))
       (fst c', mset (fst (snd c')), mset (snd (snd c')))"
proof (induction UseCas g sched c rule: AsyncAlgo_schedule.induct)
  case (1 UseCas g c)
  then show ?case by simp
next
  case (2 UseCas g i sched st bag ts)
  from "2.prems" have i: "i < length ts" by (simp split: if_splits)
  let ?r = "AsyncAlgo_thread_step UseCas g st (ts ! i)"
  let ?c1 = "(fst ?r, bag @ fst (snd ?r), take i ts @ snd (snd ?r) @ drop (Suc i) ts)"
  let ?others = "mset (take i ts) + mset (drop (Suc i) ts)"
  have rest: "AsyncAlgo_schedule UseCas g sched ?c1 = Some c'"
    using "2.prems" i by (simp add: Let_def)
  have "AsyncAlgo_op_step UseCas g (st, mset bag, add_mset (ts ! i) ?others)
      (fst ?r, mset bag + mset (fst (snd ?r)), ?others + mset (snd (snd ?r)))"
    by (rule AsyncAlgo_op_step.run) simp
  then have "AsyncAlgo_op_step UseCas g (st, mset bag, mset ts)
      (fst ?c1, mset (fst (snd ?c1)), mset (snd (snd ?c1)))"
    using mset_nth_split [OF i] by (simp add: add.assoc add.commute)
  moreover have "rtranclp (AsyncAlgo_op_step UseCas g)
      (fst ?c1, mset (fst (snd ?c1)), mset (snd (snd ?c1)))
      (fst c', mset (fst (snd c')), mset (snd (snd c')))"
    using "2.IH" [OF i refl rest] .
  ultimately show ?case by (simp add: converse_rtranclp_into_rtranclp)
qed

lemma ex_nodes_upd:
  "i < length ds \<Longrightarrow> (ex_nodes ds)(i := \<lparr>dist = d\<rparr>) = ex_nodes (ds[i := d])"
  by (auto simp: ex_nodes_def fun_eq_iff)

lemma ex_nodes_dist_upd:
  "i < length ds \<Longrightarrow> (ex_nodes ds)(i := (ex_nodes ds i)\<lparr>dist := d\<rparr>) = ex_nodes (ds[i := d])"
  by (auto simp: ex_nodes_def fun_eq_iff)

lemma ex_nodes_dist [simp]: "i < length ds \<Longrightarrow> dist (ex_nodes ds i) = ds ! i"
  by (simp add: ex_nodes_def)

lemma setDist_ex_state:
  "i < length ds \<Longrightarrow>
     setDist \<lparr>nodes = ex_nodes ds, BadWork = b, WLEmptyWork = w\<rparr> i d
       = \<lparr>nodes = ex_nodes (ds[i := d]), BadWork = b, WLEmptyWork = w\<rparr>"
  by (simp add: setDist_def ex_nodes_dist_upd)

lemma ex_state_pad: "ex_nodes [] = ex_nodes [DIST_INFINITY, DIST_INFINITY, DIST_INFINITY, DIST_INFINITY]"
  by (auto simp: ex_nodes_def fun_eq_iff less_Suc_eq nth_Cons')

lemma init_wrap:
  "do_all_Initialize ex_wrap_graph (ex_state [])
     = \<lparr>nodes = ex_nodes [DIST_INFINITY, DIST_INFINITY, DIST_INFINITY, DIST_INFINITY],
        BadWork = 0, WLEmptyWork = 0\<rparr>"
  by (simp add: do_all_Initialize_def ex_wrap_graph_def upt_rec Initialize_def ex_state_def
        ex_state_pad setDist_ex_state)

lemma serial_wrap:
  "SerialAlgo by_distance ex_wrap_graph 0 (do_all_Initialize ex_wrap_graph (ex_state []))
     = Some (ex_state [0, 2, 1, DIST_INFINITY])"
  unfolding init_wrap SerialAlgo_def
  apply (subst SerialAlgo_loop.simps, simp add: setDist_ex_state ex_wrap_graph_def
      SerialAlgo_edge_def by_distance_def DIST_INFINITY_def)+
  apply (simp add: ex_state_def DIST_INFINITY_def)
  done

lemma initial_wrap:
  "AsyncAlgo_initial True ex_wrap_graph 0 (do_all_Initialize ex_wrap_graph (ex_state []))
     = (\<lparr>nodes = ex_nodes [0, 3, 1, DIST_INFINITY], BadWork = 0, WLEmptyWork = 0\<rparr>,
        [(1, 3), (2, 1)])"
  unfolding init_wrap
  by (simp add: AsyncAlgo_initial_def setDist_ex_state ex_wrap_graph_def
      AsyncAlgo_InitialProcess_def AsyncAlgo_relaxEdge_eq DIST_INFINITY_def)

lemma Dist_wrap_zero: "(4294967296 :: Dist) = 0"
  by simp

lemma fifo_wrap:
  "AsyncAlgo_fifo (Suc (Suc (Suc (Suc 0)))) True ex_wrap_graph
     \<lparr>nodes = ex_nodes [0, 3, 1, DIST_INFINITY], BadWork = 0, WLEmptyWork = 0\<rparr> [(1, 3), (2, 1)]
     = Some ((ex_state [0, 2, 1, 0])\<lparr>BadWork := 1\<rparr>)"
  by (simp add: AsyncAlgo_relaxNode_def AsyncAlgo_relaxEdge_eq Let_def
      setDist_ex_state ex_wrap_graph_def DIST_INFINITY_def ex_state_def Dist_wrap_zero)

lemma total_order_by_distance: "total_order by_distance"
  by (auto simp: total_order_def by_distance_def prod_eq_iff)

lemma wf_ex_graph3: "wf_graph ex_graph3"
  by (simp add: wf_graph_def ex_graph3_def less_Suc_eq all_conj_distrib numeral_3_eq_3)

lemma no_overflow_ex_graph3: "no_overflow ex_graph3 0"
proof (rule no_overflow_bound [where W = 5])
  show "wf_graph ex_graph3" by (rule wf_ex_graph3)
  show "0 < length ex_graph3" by (simp add: ex_graph3_def)
  show "\<forall>v < length ex_graph3. \<forall>e \<in> set (ex_graph3 ! v). unat (snd e) \<le> 5"
    by (simp add: ex_graph3_def less_Suc_eq all_conj_distrib numeral_3_eq_3)
  show "length ex_graph3 * 5 < 2 ^ 32" by (simp add: ex_graph3_def)
qed

lemma ex_state_pad3: "ex_nodes [] = ex_nodes [DIST_INFINITY, DIST_INFINITY, DIST_INFINITY]"
  by (auto simp: ex_nodes_def fun_eq_iff less_Suc_eq nth_Cons')

lemma init_ex_graph3:
  "do_all_Initialize ex_graph3 (ex_state [])
     = \<lparr>nodes = ex_nodes [DIST_INFINITY, DIST_INFINITY, DIST_INFINITY],
        BadWork = 0, WLEmptyWork = 0\<rparr>"
  by (simp add: do_all_Initialize_def ex_graph3_def upt_rec Initialize_def ex_state_def
        ex_state_pad3 setDist_ex_state)

lemma serial_ex_graph3:
  "SerialAlgo by_distance ex_graph3 0 (do_all_Initialize ex_graph3 (ex_state []))
     = Some (ex_state [0, 2, 1])"
  unfolding init_ex_graph3 SerialAlgo_def
  apply (subst SerialAlgo_loop.simps, simp add: setDist_ex_state ex_graph3_def
      SerialAlgo_edge_def by_distance_def DIST_INFINITY_def)+
  apply (simp add: ex_state_def)
  done

lemma async_run_ex_graph3:
  "rtranclp (AsyncAlgo_step True ex_graph3)
     (AsyncAlgo_start ex_graph3 0 (do_all_Initialize ex_graph3 (ex_state [])))
     ((ex_state [0, 2, 1])\<lparr>BadWork := 1\<rparr>, {#}, {#})"
proof -
  have i: "AsyncAlgo_initial True ex_graph3 0 (do_all_Initialize ex_graph3 (ex_state []))
     = (\<lparr>nodes = ex_nodes [0, 5, 1], BadWork = 0, WLEmptyWork = 0\<rparr>, [(1, 5), (2, 1)])"
    unfolding init_ex_graph3
    by (simp add: AsyncAlgo_initial_def setDist_ex_state ex_graph3_def
        AsyncAlgo_InitialProcess_def AsyncAlgo_relaxEdge_eq DIST_INFINITY_def)
  have f: "AsyncAlgo_fifo (Suc (Suc (Suc 0))) True ex_graph3
     \<lparr>nodes = ex_nodes [0, 5, 1], BadWork = 0, WLEmptyWork = 0\<rparr> [(1, 5), (2, 1)]
     = Some ((ex_state [0, 2, 1])\<lparr>BadWork := 1\<rparr>)"
    by (simp add: AsyncAlgo_relaxNode_def AsyncAlgo_relaxEdge_eq Let_def
        setDist_ex_state ex_graph3_def DIST_INFINITY_def ex_state_def)
  have "rtranclp (AsyncAlgo_step True ex_graph3)
     (AsyncAlgo_start ex_graph3 0 (do_all_Initialize ex_graph3 (ex_state [])))
     (\<lparr>nodes = ex_nodes [0, 5, 1], BadWork = 0, WLEmptyWork = 0\<rparr>, mset [(1, 5), (2, 1)], {#})"
    using AsyncAlgo_initial_run [of True ex_graph3 0 "do_all_Initialize ex_graph3 (ex_state [])"]
    by (simp only: i fst_conv snd_conv)
  also note AsyncAlgo_fifo_run [OF f]
  finally show ?thesis .
qed

lemma set_run_ex_graph3:
  "rtranclp (AsyncSetAlgo_step True True ex_graph3)
     (AsyncSetAlgo_start ex_graph3 0 (do_all_Initialize ex_graph3 (ex_state [])))
     ((ex_state [0, 2, 1])\<lparr>BadWork := 1\<rparr>, {#}, {#})"
proof -
  have i: "AsyncSetAlgo_initial True ex_graph3 0 (do_all_Initialize ex_graph3 (ex_state []))
     = (\<lparr>nodes = ex_nodes [0, 5, 1], BadWork = 0, WLEmptyWork = 0\<rparr>, [1, 2])"
    unfolding init_ex_graph3
    by (simp add: AsyncSetAlgo_initial_def setDist_ex_state ex_graph3_def
        AsyncSetAlgo_relaxEdge_eq DIST_INFINITY_def)
  have w: "foldl (work_set_push True) {#} [1, 2] = mset [1, 2]"
    by (simp add: work_set_push_def)
  have f: "AsyncSetAlgo_fifo (Suc (Suc (Suc 0))) True True ex_graph3
     \<lparr>nodes = ex_nodes [0, 5, 1], BadWork = 0, WLEmptyWork = 0\<rparr> [1, 2]
     = Some ((ex_state [0, 2, 1])\<lparr>BadWork := 1\<rparr>)"
    by (simp add: AsyncSetAlgo_relaxNode_def AsyncSetAlgo_relaxEdge_eq Let_def
        setDist_ex_state ex_graph3_def DIST_INFINITY_def ex_state_def work_list_push_def)
  have "rtranclp (AsyncSetAlgo_step True True ex_graph3)
     (AsyncSetAlgo_start ex_graph3 0 (do_all_Initialize ex_graph3 (ex_state [])))
     (\<lparr>nodes = ex_nodes [0, 5, 1], BadWork = 0, WLEmptyWork = 0\<rparr>, mset [1, 2], {#})"
    using AsyncSetAlgo_initial_run [of True True ex_graph3 0
        "do_all_Initialize ex_graph3 (ex_state [])"]
    by (simp only: i fst_conv snd_conv w)
  also note AsyncSetAlgo_fifo_run [OF f]
  finally show ?thesis .
qed

lemma ex_state_pad2: "ex_nodes [] = ex_nodes [DIST_INFINITY, DIST_INFINITY]"
  by (auto simp: ex_nodes_def fun_eq_iff less_Suc_eq nth_Cons')

lemma init_race:
  "do_all_Initialize ex_race_graph (ex_state [])
     = \<lparr>nodes = ex_nodes [DIST_INFINITY, DIST_INFINITY], BadWork = 0, WLEmptyWork = 0\<rparr>"
  by (simp add: do_all_Initialize_def ex_race_graph_def upt_rec Initialize_def ex_state_def
        ex_state_pad2 setDist_ex_state)

lemma serial_race:
  "SerialAlgo by_distance ex_race_graph 0 (do_all_Initialize ex_race_graph (ex_state []))
     = Some (ex_state [0, 3])"
  unfolding init_race SerialAlgo_def
  apply (subst SerialAlgo_loop.simps, simp add: setDist_ex_state ex_race_graph_def
      SerialAlgo_edge_def by_distance_def DIST_INFINITY_def)+
  apply (simp add: ex_state_def)
  done

lemma schedule_race:
  "AsyncAlgo_schedule False ex_race_graph [0, 1, 0, 1, 1, 0, 1, 0, 1, 0]
     (\<lparr>nodes = ex_nodes [0, DIST_INFINITY], BadWork = 0, WLEmptyWork = 0\<rparr>, [],
      [Arg (0, 0) (1, 5) [], Arg (0, 0) (1, 3) []])
     = Some (ex_state [0, 5], [(1, 3), (1, 5)], [])"
  by (simp add: Let_def setDist_ex_state bad_work_def DIST_INFINITY_def ex_state_def)

text \<open>
  Two applications of \<open>InitialProcess\<close> without compare-and-swap, on two parallel
  edges: both read the destination before either stores.
\<close>

lemma do_all_race_run:
  "rtranclp (AsyncAlgo_op_step False ex_race_graph)
     (AsyncAlgo_start ex_race_graph 0 (do_all_Initialize ex_race_graph (ex_state [])))
     (ex_state [0, 5], mset [(1, 3), (1, 5)], {#})"
proof -
  have s: "AsyncAlgo_start ex_race_graph 0 (do_all_Initialize ex_race_graph (ex_state []))
      = (\<lparr>nodes = ex_nodes [0, DIST_INFINITY], BadWork = 0, WLEmptyWork = 0\<rparr>, mset [],
         mset [Arg (0, 0) (1, 5) [], Arg (0, 0) (1, 3) []])"
    unfolding init_race
    by (simp add: AsyncAlgo_start_def setDist_ex_state ex_race_graph_def)
  show ?thesis
    unfolding s using AsyncAlgo_schedule_run [OF schedule_race] by simp
qed

lemma fifo_race:
  "AsyncAlgo_fifo (Suc (Suc 0)) False ex_race_graph (ex_state [0, 5]) [(1, 3), (1, 5)]
     = Some ((ex_state [0, 5])\<lparr>WLEmptyWork := 1\<rparr>)"
  by (simp add: AsyncAlgo_relaxNode_def trackWork_def ex_race_graph_def ex_state_def)

lemma wf_ex_race_graph: "wf_graph ex_race_graph"
  by (simp add: wf_graph_def ex_race_graph_def less_Suc_eq all_conj_distrib)

lemma no_overflow_ex_race_graph: "no_overflow ex_race_graph 0"
proof (rule no_overflow_bound [where W = 5])
  show "wf_graph ex_race_graph" by (rule wf_ex_race_graph)
  show "0 < length ex_race_graph" by (simp add: ex_race_graph_def)
  show "\<forall>v < length ex_race_graph. \<forall>e \<in> set (ex_race_graph ! v). unat (snd e) \<le> 5"
    by (simp add: ex_race_graph_def less_Suc_eq all_conj_distrib)
  show "length ex_race_graph * 5 < 2 ^ 32" by (simp add: ex_race_graph_def)
qed

text \<open>
  Two runs that do not end as \<open>SerialAlgo\<close>.  With weights that wrap: on the graph
  with the edges 0 to 1 (3), 0 to 2 (1), 1 to 3 (\<open>0xFFFFFFFD\<close>) and 2 to 1 (1), from
  source 0, \<open>SerialAlgo\<close> ends with \<open>dist = [0, 2, 1, DIST_INFINITY]\<close>; the run of
  \<open>AsyncAlgo\<close> with compare-and-swap in which one worker takes the requests in
  first-in first-out order processes \<open>(1, 3)\<close> first, where \<open>3 + 0xFFFFFFFD\<close> wraps
  to 0, and ends with \<open>dist = [0, 2, 1, 0]\<close>.  Without compare-and-swap and without
  any wrap: on the graph with the two edges 0 to 1 (5) and 0 to 1 (3), \<open>SerialAlgo\<close>
  ends with \<open>dist = [0, 3]\<close>; in the run of \<open>AsyncAlgo\<close> in which both applications
  of \<open>InitialProcess\<close> read \<open>dist[1]\<close> before either stores, and 3 is stored before
  5, the request \<open>(1, 3)\<close> is then dropped as empty work and the run ends with
  \<open>dist = [0, 5]\<close>.
\<close>

theorem parallel_serial_counterexample:
  "SerialAlgo by_distance ex_wrap_graph 0 (do_all_Initialize ex_wrap_graph (ex_state []))
     = Some (ex_state [0, 2, 1, DIST_INFINITY]) \<and>
   rtranclp (AsyncAlgo_step True ex_wrap_graph)
     (AsyncAlgo_start ex_wrap_graph 0 (do_all_Initialize ex_wrap_graph (ex_state [])))
     ((ex_state [0, 2, 1, 0])\<lparr>BadWork := 1\<rparr>, {#}, {#}) \<and>
   dist (nodes (ex_state [0, 2, 1, DIST_INFINITY]) 3) = DIST_INFINITY \<and>
   dist (nodes ((ex_state [0, 2, 1, 0])\<lparr>BadWork := 1\<rparr>) 3) = 0 \<and>
   wf_graph ex_race_graph \<and> no_overflow ex_race_graph 0 \<and>
   SerialAlgo by_distance ex_race_graph 0 (do_all_Initialize ex_race_graph (ex_state []))
     = Some (ex_state [0, 3]) \<and>
   rtranclp (AsyncAlgo_step False ex_race_graph)
     (AsyncAlgo_start ex_race_graph 0 (do_all_Initialize ex_race_graph (ex_state [])))
     ((ex_state [0, 5])\<lparr>WLEmptyWork := 1\<rparr>, {#}, {#}) \<and>
   dist (nodes (ex_state [0, 3]) 1) = 3 \<and>
   dist (nodes ((ex_state [0, 5])\<lparr>WLEmptyWork := 1\<rparr>) 1) = 5"
proof -
  have "rtranclp (AsyncAlgo_step True ex_wrap_graph)
     (AsyncAlgo_start ex_wrap_graph 0 (do_all_Initialize ex_wrap_graph (ex_state [])))
     (\<lparr>nodes = ex_nodes [0, 3, 1, DIST_INFINITY], BadWork = 0, WLEmptyWork = 0\<rparr>,
      mset [(1, 3), (2, 1)], {#})"
    using AsyncAlgo_initial_run [of True ex_wrap_graph 0
        "do_all_Initialize ex_wrap_graph (ex_state [])"]
    by (simp only: initial_wrap fst_conv snd_conv)
  also have "rtranclp (AsyncAlgo_step True ex_wrap_graph)
     (\<lparr>nodes = ex_nodes [0, 3, 1, DIST_INFINITY], BadWork = 0, WLEmptyWork = 0\<rparr>,
      mset [(1, 3), (2, 1)], {#})
     ((ex_state [0, 2, 1, 0])\<lparr>BadWork := 1\<rparr>, {#}, {#})"
    using fifo_wrap by (rule AsyncAlgo_fifo_run)
  finally have wrap: "rtranclp (AsyncAlgo_step True ex_wrap_graph)
     (AsyncAlgo_start ex_wrap_graph 0 (do_all_Initialize ex_wrap_graph (ex_state [])))
     ((ex_state [0, 2, 1, 0])\<lparr>BadWork := 1\<rparr>, {#}, {#})" .
  have "rtranclp (AsyncAlgo_step False ex_race_graph)
     (AsyncAlgo_start ex_race_graph 0 (do_all_Initialize ex_race_graph (ex_state [])))
     (ex_state [0, 5], mset [(1, 3), (1, 5)], {#})"
    by (rule op_steps_steps [OF do_all_race_run])
  also note AsyncAlgo_fifo_run [OF fifo_race]
  finally have race: "rtranclp (AsyncAlgo_step False ex_race_graph)
     (AsyncAlgo_start ex_race_graph 0 (do_all_Initialize ex_race_graph (ex_state [])))
     ((ex_state [0, 5])\<lparr>WLEmptyWork := 1\<rparr>, {#}, {#})" .
  have d: "dist (nodes (ex_state [0, 2, 1, DIST_INFINITY]) 3) = DIST_INFINITY"
    "dist (nodes ((ex_state [0, 2, 1, 0])\<lparr>BadWork := 1\<rparr>) 3) = 0"
    "dist (nodes (ex_state [0, 3]) 1) = 3"
    "dist (nodes ((ex_state [0, 5])\<lparr>WLEmptyWork := 1\<rparr>) 1) = 5"
    by (simp_all add: ex_state_def)
  from serial_wrap wrap d wf_ex_race_graph no_overflow_ex_race_graph serial_race race
  show ?thesis by blast
qed

text \<open>
  C1 (as amended): let the edges of the graph lead to nodes of the graph, the source
  be a node of the graph, no sum wrap (\<open>no_overflow\<close>), and different requests be
  comparable under \<open>operator<\<close>.  Then \<open>SerialAlgo\<close> returns; the parallel
  algorithms with compare-and-swap, \<open>AsyncAlgo<true>\<close> and \<open>AsyncSetAlgo<true>\<close>
  with and without a work set, have a complete run; and every complete run of them,
  whatever the order of the work list and the interleaving of the operators, ends
  with the same distance as \<open>SerialAlgo\<close> on every node of the graph.
\<close>

theorem parallel_equals_serial:
  fixes st :: "('a SNode_scheme) State"
  assumes wf: "wf_graph g" and src: "src < length g" and H: "no_overflow g src"
    and tot: "total_order lt"
  shows "\<exists>stS. SerialAlgo lt g src (do_all_Initialize g st) = Some stS \<and>
     (\<exists>stP. rtranclp (AsyncAlgo_step True g)
        (AsyncAlgo_start g src (do_all_Initialize g st)) (stP, {#}, {#})) \<and>
     (\<forall>stP. rtranclp (AsyncAlgo_step True g)
        (AsyncAlgo_start g src (do_all_Initialize g st)) (stP, {#}, {#}) \<longrightarrow>
        (\<forall>v < length g. dist (nodes stP v) = dist (nodes stS v))) \<and>
     (\<forall>useSet.
        (\<exists>stP. rtranclp (AsyncSetAlgo_step True useSet g)
           (AsyncSetAlgo_start g src (do_all_Initialize g st)) (stP, {#}, {#})) \<and>
        (\<forall>stP. rtranclp (AsyncSetAlgo_step True useSet g)
           (AsyncSetAlgo_start g src (do_all_Initialize g st)) (stP, {#}, {#}) \<longrightarrow>
           (\<forall>v < length g. dist (nodes stP v) = dist (nodes stS v))))"
proof -
  from SerialAlgo_solution [OF wf src H tot, of st] obtain stS where
    S: "SerialAlgo lt g src (do_all_Initialize g st) = Some stS"
    and sol: "dists stS src = 0" "relaxed g (dists stS)" "justified g src (dists stS)"
    by blast
  have a: "dist (nodes stP v) = dist (nodes stS v)"
    if "rtranclp (AsyncAlgo_step True g)
          (AsyncAlgo_start g src (do_all_Initialize g st)) (stP, {#}, {#})" "v < length g"
    for stP :: "('a SNode_scheme) State" and v
  proof -
    from AsyncAlgo_solution [OF wf src H that(1)]
    have "dists stP src = 0" "relaxed g (dists stP)" "justified g src (dists stP)"
      by simp_all
    then have "dists stP v = dists stS v"
      using sol that(2) by (rule solution_unique)
    then show ?thesis by (simp add: dists_def)
  qed
  have b: "dist (nodes stP v) = dist (nodes stS v)"
    if "rtranclp (AsyncSetAlgo_step True useSet g)
          (AsyncSetAlgo_start g src (do_all_Initialize g st)) (stP, {#}, {#})" "v < length g"
    for useSet and stP :: "('a SNode_scheme) State" and v
  proof -
    from AsyncSetAlgo_solution [OF wf src H that(1)]
    have "dists stP src = 0" "relaxed g (dists stP)" "justified g src (dists stP)"
      by simp_all
    then have "dists stP v = dists stS v"
      using sol that(2) by (rule solution_unique)
    then show ?thesis by (simp add: dists_def)
  qed
  have ea: "\<exists>stP :: ('a SNode_scheme) State. rtranclp (AsyncAlgo_step True g)
           (AsyncAlgo_start g src (do_all_Initialize g st)) (stP, {#}, {#})"
    by (rule AsyncAlgo_complete_run [OF wf src H])
  have eb: "\<exists>stP :: ('a SNode_scheme) State. rtranclp (AsyncSetAlgo_step True useSet g)
           (AsyncSetAlgo_start g src (do_all_Initialize g st)) (stP, {#}, {#})"
    for useSet
    by (rule AsyncSetAlgo_complete_run [OF wf src H])
  show ?thesis
  proof (rule exI [of _ stS], intro conjI allI impI)
    show "SerialAlgo lt g src (do_all_Initialize g st) = Some stS" by (rule S)
  qed (rule ea, rule a, assumption+, rule eb, rule b, assumption+)
qed

theorem parallel_equals_serial_witness:
  "wf_graph ex_graph3 \<and> 0 < length ex_graph3 \<and> no_overflow ex_graph3 0 \<and>
   total_order by_distance \<and>
   SerialAlgo by_distance ex_graph3 0 (do_all_Initialize ex_graph3 (ex_state []))
     = Some (ex_state [0, 2, 1]) \<and>
   rtranclp (AsyncAlgo_step True ex_graph3)
     (AsyncAlgo_start ex_graph3 0 (do_all_Initialize ex_graph3 (ex_state [])))
     ((ex_state [0, 2, 1])\<lparr>BadWork := 1\<rparr>, {#}, {#}) \<and>
   rtranclp (AsyncSetAlgo_step True True ex_graph3)
     (AsyncSetAlgo_start ex_graph3 0 (do_all_Initialize ex_graph3 (ex_state [])))
     ((ex_state [0, 2, 1])\<lparr>BadWork := 1\<rparr>, {#}, {#}) \<and>
   dist (nodes ((ex_state [0, 2, 1])\<lparr>BadWork := 1\<rparr>) 0) = dist (nodes (ex_state [0, 2, 1]) 0) \<and>
   dist (nodes ((ex_state [0, 2, 1])\<lparr>BadWork := 1\<rparr>) 1) = dist (nodes (ex_state [0, 2, 1]) 1) \<and>
   dist (nodes ((ex_state [0, 2, 1])\<lparr>BadWork := 1\<rparr>) 2) = dist (nodes (ex_state [0, 2, 1]) 2)"
proof -
  have len: "0 < length ex_graph3" "1 < length ex_graph3" "2 < length ex_graph3"
    by (simp_all add: ex_graph3_def)
  from parallel_equals_serial [OF wf_ex_graph3 len(1) no_overflow_ex_graph3
      total_order_by_distance, of "ex_state []"]
  obtain stS where S: "SerialAlgo by_distance ex_graph3 0
        (do_all_Initialize ex_graph3 (ex_state [])) = Some stS"
    and A: "\<And>stP v. rtranclp (AsyncAlgo_step True ex_graph3)
          (AsyncAlgo_start ex_graph3 0 (do_all_Initialize ex_graph3 (ex_state [])))
          (stP, {#}, {#}) \<Longrightarrow> v < length ex_graph3 \<Longrightarrow>
          dist (nodes stP v) = dist (nodes stS v)"
    and B: "\<And>useSet stP v. rtranclp (AsyncSetAlgo_step True useSet ex_graph3)
          (AsyncSetAlgo_start ex_graph3 0 (do_all_Initialize ex_graph3 (ex_state [])))
          (stP, {#}, {#}) \<Longrightarrow> v < length ex_graph3 \<Longrightarrow>
          dist (nodes stP v) = dist (nodes stS v)"
    by blast
  have stS: "stS = ex_state [0, 2, 1]"
    using S serial_ex_graph3 by simp
  note eq = A [OF async_run_ex_graph3, unfolded stS]
  note eq_set = B [OF set_run_ex_graph3, unfolded stS]
  from eq [OF len(1)] eq [OF len(2)] eq [OF len(3)]
    eq_set [OF len(1)] eq_set [OF len(2)] eq_set [OF len(3)]
    wf_ex_graph3 len(1) no_overflow_ex_graph3 total_order_by_distance serial_ex_graph3
    async_run_ex_graph3 set_run_ex_graph3
  show ?thesis by simp
qed

section \<open>The initial frontier\<close>


lemma no_pushes_filter:
  assumes "\<And>t. t \<in> set ts' \<Longrightarrow> \<not> pushes t q"
  shows "filter_mset (\<lambda>t. pushes t q) (mset ts') = {#}"
  using assms by (induction ts') auto














end
